theory Spec2Isabelle
  imports Main "HOL-Library.Sublist"
begin

section \<open>Python strings\<close>

text \<open>
  A Python \<open>str\<close> is a sequence of code points. Texts whose code points are all below
  256 are modelled as a \<open>string\<close>; on these, \<open>str.lower()\<close> works character by
  character and keeps the length, and \<open>str.isspace()\<close> holds for the code points
  listed in \<open>is_space\<close>. Texts with code points from 256 on are modelled as lists of
  natural numbers (see \<open>lower_code_points\<close> below); the operations that do not look at
  the characters themselves are defined for lists of any type.
\<close>

definition lower_char :: "char \<Rightarrow> char" where
  "lower_char c =
     (let n = (of_char c :: nat)
      in if (65 \<le> n \<and> n \<le> 90) \<or> (192 \<le> n \<and> n \<le> 222 \<and> n \<noteq> 215)
         then char_of (n + 32) else c)"

definition lower :: "string \<Rightarrow> string" where
  "lower s = map lower_char s"

definition is_space :: "char \<Rightarrow> bool" where
  "is_space c =
     (let n = (of_char c :: nat)
      in (9 \<le> n \<and> n \<le> 13) \<or> (28 \<le> n \<and> n \<le> 32) \<or> n = 133 \<or> n = 160)"

text \<open>\<open>s.strip()\<close>: leading and trailing whitespace removed.\<close>

definition strip :: "string \<Rightarrow> string" where
  "strip s = rev (dropWhile is_space (rev (dropWhile is_space s)))"

text \<open>
  \<open>s.split()\<close>: the maximal runs of non-whitespace characters, in order. The first
  argument is the word being read.
\<close>

fun split_aux :: "string \<Rightarrow> string \<Rightarrow> string list" where
  "split_aux w [] = (if w = [] then [] else [w])"
| "split_aux w (c # cs) =
     (if is_space c then (if w = [] then split_aux [] cs else w # split_aux [] cs)
      else split_aux (w @ [c]) cs)"

definition split :: "string \<Rightarrow> string list" where
  "split s = split_aux [] s"

text \<open>\<open>sep.join(ws)\<close>.\<close>

fun join :: "string \<Rightarrow> string list \<Rightarrow> string" where
  "join sep [] = []"
| "join sep [w] = w"
| "join sep (w # v # ws) = w @ sep @ join sep (v # ws)"

text \<open>\<open>s.startswith(p)\<close>.\<close>

definition startswith :: "'a list \<Rightarrow> 'a list \<Rightarrow> bool" where
  "startswith s p = (take (length p) s = p)"

text \<open>\<open>s.endswith(p)\<close>.\<close>

definition endswith :: "'a list \<Rightarrow> 'a list \<Rightarrow> bool" where
  "endswith s p = startswith (rev s) (rev p)"

text \<open>
  \<open>s.find(sub)\<close>: the lowest index at which \<open>sub\<close> occurs in \<open>s\<close>; \<open>None\<close> stands
  for Python's \<open>-1\<close>. The test \<open>sub in s\<close> is \<open>find_str s sub \<noteq> None\<close>.
\<close>

fun find_str :: "'a list \<Rightarrow> 'a list \<Rightarrow> nat option" where
  "find_str [] sub = (if sub = [] then Some 0 else None)"
| "find_str (c # cs) sub =
     (if startswith (c # cs) sub then Some 0 else map_option Suc (find_str cs sub))"

definition contains :: "'a list \<Rightarrow> 'a list \<Rightarrow> bool" where
  "contains s sub = (find_str s sub \<noteq> None)"

text \<open>
  \<open>s.split(sep, 1)[1]\<close> for a separator that occurs in \<open>s\<close>: what follows the first
  occurrence of \<open>sep\<close>.
\<close>

definition after_first :: "'a list \<Rightarrow> 'a list \<Rightarrow> 'a list" where
  "after_first s sep =
     (case find_str s sep of None \<Rightarrow> [] | Some i \<Rightarrow> drop (i + length sep) s)"

section \<open>The redactor (agent\_manager/utils.py)\<close>

subsection \<open>find\_spoken\_portion\<close>

text \<open>
  The inner loop of the word alignment: with \<open>us\<close> and \<open>ts\<close> the utterance words and
  the text words read from the end, the number of equal words before the first mismatch
  or the end of the shorter list (\<open>min_len\<close> iterations at most).
\<close>

fun trailing_match :: "string list \<Rightarrow> string list \<Rightarrow> nat" where
  "trailing_match (u # us) (t # ts) = (if u = t then Suc (trailing_match us ts) else 0)"
| "trailing_match us ts = 0"

definition match_count :: "string list \<Rightarrow> string list \<Rightarrow> nat" where
  "match_count utterance_words text_words =
     trailing_match (rev utterance_words) (rev text_words)"

text \<open>
  The outer loop \<open>for end_pos in range(1, len(full_words) + 1)\<close>: the second argument
  lists the values of \<open>end_pos\<close> still to come, the last one is \<open>best_match_pos\<close>.
  A full match stores \<open>end_pos\<close> and leaves the loop; any other positive count stores
  \<open>end_pos\<close> and goes on.
\<close>

fun scan :: "string list \<Rightarrow> string list \<Rightarrow> nat list \<Rightarrow> nat \<Rightarrow> nat" where
  "scan utterance_words full_words [] best_match_pos = best_match_pos"
| "scan utterance_words full_words (end_pos # rest) best_match_pos =
     (let mc = match_count utterance_words (take end_pos full_words)
      in if mc = length utterance_words then end_pos
         else if mc > 0 then scan utterance_words full_words rest end_pos
         else scan utterance_words full_words rest best_match_pos)"

definition best_match_pos :: "string list \<Rightarrow> string list \<Rightarrow> nat" where
  "best_match_pos utterance_words full_words =
     scan utterance_words full_words [1 ..< Suc (length full_words)] 0"

definition word_match :: "string \<Rightarrow> string \<Rightarrow> string" where
  "word_match full_text utterance_until_interrupt =
     (let full_words = split (lower full_text);
          utterance_words = split (lower utterance_until_interrupt);
          original_words = split full_text
      in if utterance_words = [] \<or> full_words = [] then []
         else let b = best_match_pos utterance_words full_words
              in if b > 0 then join '' '' (take b original_words) else [])"

definition find_spoken_portion :: "string \<Rightarrow> string \<Rightarrow> string" where
  "find_spoken_portion full_text utterance_until_interrupt =
     (if utterance_until_interrupt = [] \<or> full_text = [] then []
      else let full_lower = lower full_text;
               utterance_lower = lower utterance_until_interrupt
           in case find_str full_lower utterance_lower of
                Some start_pos \<Rightarrow> take (start_pos + length utterance_lower) full_text
              | None \<Rightarrow> word_match full_text utterance_until_interrupt)"

text \<open>
  The exact-match branch (lines 70 to 77) for texts of any code points, given the text
  and the two lowered texts: the position found in the lowered text is used as a
  position of the original text. \<open>None\<close>: the utterance does not occur and the word
  alignment is reached.
\<close>

definition exact_match :: "'a list \<Rightarrow> 'a list \<Rightarrow> 'a list \<Rightarrow> 'a list option" where
  "exact_match full_text full_lower utterance_lower =
     (case find_str full_lower utterance_lower of
        None \<Rightarrow> None
      | Some start_pos \<Rightarrow> Some (take (start_pos + length utterance_lower) full_text))"

text \<open>
  \<open>str.lower()\<close> on lists of code points. Below 256 it is \<open>lower_char\<close>. The code
  point U+0130 (304, capital I with dot above) is the one code point whose lower case
  has two code points, U+0069 U+0307 (105, 775). The other code points from 256 on are
  left as they are here: Python lowers the cased ones among them to one code point each,
  and the texts used below contain none.
\<close>

definition lower_code_point :: "nat \<Rightarrow> nat list" where
  "lower_code_point n =
     (if (65 \<le> n \<and> n \<le> 90) \<or> (192 \<le> n \<and> n \<le> 222 \<and> n \<noteq> 215) then [n + 32]
      else if n = 304 then [105, 775]
      else [n])"

definition lower_code_points :: "nat list \<Rightarrow> nat list" where
  "lower_code_points s = concat (map lower_code_point s)"

text \<open>The code points of a text of code points below 256.\<close>

definition code_points :: "string \<Rightarrow> nat list" where
  "code_points s = map of_char s"

text \<open>
  \<open>find_spoken_portion\<close> up to line 77 on lists of code points: the two empty checks,
  the lowering and the exact-match branch.
\<close>

definition find_spoken_portion_exact :: "nat list \<Rightarrow> nat list \<Rightarrow> nat list option" where
  "find_spoken_portion_exact full_text utterance_until_interrupt =
     (if utterance_until_interrupt = [] \<or> full_text = [] then Some []
      else exact_match full_text (lower_code_points full_text)
             (lower_code_points utterance_until_interrupt))"

subsection \<open>redact\_conversation\_history\<close>

text \<open>
  A history entry is a dictionary with the keys \<open>role\<close> and \<open>content\<close> and, for an
  interstitial, the key \<open>type\<close>.
\<close>

record entry =
  role :: string
  content :: string
  entry_type :: "string option"

text \<open>
  The returned dictionary: on failure the message only; on success the message, the
  spoken text, the original text and the redacted text.
\<close>

datatype redaction_result =
    Failed string
  | Redacted string string string string

fun success :: "redaction_result \<Rightarrow> bool" where
  "success (Failed m) = False"
| "success (Redacted m s orig red) = True"

text \<open>
  The loop \<open>for i in range(len(history) - 1, -1, -1)\<close>; the third argument lists the
  indices still to come (all below \<open>length history\<close>). \<open>history.pop(i)\<close> is
  \<open>take i history @ drop (Suc i) history\<close>.
\<close>

fun redact_loop :: "entry list \<Rightarrow> string \<Rightarrow> nat list \<Rightarrow> redaction_result \<times> entry list" where
  "redact_loop history utterance_until_interrupt [] =
     (Failed ''No assistant message found to redact'', history)"
| "redact_loop history utterance_until_interrupt (i # rest) =
     (if role (history ! i) = ''assistant'' then
        if entry_type (history ! i) = Some ''interstitial''
        then redact_loop history utterance_until_interrupt rest
        else
          let full_response = content (history ! i);
              spoken_portion = find_spoken_portion full_response utterance_until_interrupt;
              result = Redacted ''Conversation history redacted'' spoken_portion full_response
                         (if spoken_portion \<noteq> [] then drop (length spoken_portion) full_response
                          else full_response)
          in if strip spoken_portion \<noteq> []
             then (result, history[i := (history ! i)\<lparr>content := spoken_portion\<rparr>])
             else (result, take i history @ drop (Suc i) history)
      else redact_loop history utterance_until_interrupt rest)"

definition redact_conversation_history ::
  "string \<Rightarrow> string \<Rightarrow> (string \<rightharpoonup> entry list) \<Rightarrow> redaction_result \<times> (string \<rightharpoonup> entry list)" where
  "redact_conversation_history session_id utterance_until_interrupt conversation_histories =
     (case conversation_histories session_id of
        None \<Rightarrow> (Failed ''No conversation history found'', conversation_histories)
      | Some history \<Rightarrow>
          if history = [] then (Failed ''No conversation history found'', conversation_histories)
          else
            let (result, history') =
                  redact_loop history utterance_until_interrupt (rev [0 ..< length history])
            in (result, conversation_histories(session_id \<mapsto> history')))"

text \<open>
  The entries the redaction loop stops at: assistant entries that are not
  interstitials.
\<close>

definition real_assistant :: "entry \<Rightarrow> bool" where
  "real_assistant e = (role e = ''assistant'' \<and> entry_type e \<noteq> Some ''interstitial'')"

text \<open>The two tests of the outer loop of the word alignment, at prefix length \<open>e\<close>.\<close>

definition full_at :: "string list \<Rightarrow> string list \<Rightarrow> nat \<Rightarrow> bool" where
  "full_at uw fw e = (match_count uw (take e fw) = length uw)"

definition partial_at :: "string list \<Rightarrow> string list \<Rightarrow> nat \<Rightarrow> bool" where
  "partial_at uw fw e = (0 < match_count uw (take e fw))"

section \<open>The streaming callback handler (agent\_manager/handlers.py)\<close>

text \<open>
  The attributes of \<open>StreamingCallbackHandler\<close>. The clock readings \<open>tool_start_time\<close>
  and \<open>llm_start_time\<close> are written and never read, and are left out. The attribute
  \<open>interstitial_timer\<close> is represented by \<open>timer_alive\<close>, the value of
  \<open>hasattr(self, 'interstitial_timer') and self.interstitial_timer.is_alive()\<close>: a
  timer has been started and has neither fired nor been cancelled. (The thread of a
  cancelled timer is taken to end at once; in Python \<open>is_alive()\<close> stays true until it
  has ended, so that a tool starting right after a cancel starts no new timer there.)
\<close>

record handler =
  buffer :: string
  tokens :: "string list"
  tool_executing :: bool
  call_end_detected :: bool
  handoff_detected :: bool
  current_tool :: "string option"
  phrase_index :: nat
  interstitial_sent :: bool
  interstitial_ready :: bool
  sent_interstitials :: "string list"
  timer_alive :: bool

definition interstitial_phrases :: "string list" where
  "interstitial_phrases =
     [''Let me check that for you...'',
      ''One moment please...'',
      ''I'' @ [CHR 0x27] @ ''m looking into that...'',
      ''Just a second...'',
      ''Let me find that information...'',
      ''Give me just a moment...'']"

definition no_interstitial_tools :: "string list" where
  "no_interstitial_tools = [''end_call'', ''escalate_to_human_agent'']"

text \<open>\<open>__init__\<close>.\<close>

definition init_handler :: handler where
  "init_handler =
     \<lparr>buffer = [], tokens = [], tool_executing = False, call_end_detected = False,
      handoff_detected = False, current_tool = None, phrase_index = 0,
      interstitial_sent = False, interstitial_ready = False, sent_interstitials = [],
      timer_alive = False\<rparr>"

definition on_llm_new_token :: "handler \<Rightarrow> string \<Rightarrow> handler" where
  "on_llm_new_token h token =
     (let h1 = h\<lparr>buffer := buffer h @ token, tokens := tokens h @ [token]\<rparr>;
          h2 = (if timer_alive h1 then h1\<lparr>timer_alive := False\<rparr> else h1)
      in if interstitial_sent h2 \<and> strip token \<noteq> [] then h2\<lparr>interstitial_sent := False\<rparr>
         else h2)"

definition on_llm_start :: "handler \<Rightarrow> handler" where
  "on_llm_start h = h\<lparr>interstitial_sent := False, interstitial_ready := False\<rparr>"

definition on_tool_start :: "handler \<Rightarrow> string \<Rightarrow> handler" where
  "on_tool_start h tool_name =
     (let h1 = h\<lparr>tool_executing := True, current_tool := Some tool_name\<rparr>
      in if tool_name = ''end_call'' then h1\<lparr>call_end_detected := True\<rparr>
         else if tool_name = ''escalate_to_human_agent'' then h1\<lparr>handoff_detected := True\<rparr>
         else if tool_name \<notin> set no_interstitial_tools then
                (if \<not> timer_alive h1 then h1\<lparr>timer_alive := True\<rparr> else h1)
         else h1)"

definition on_llm_end :: "handler \<Rightarrow> handler" where
  "on_llm_end h = (if timer_alive h then h\<lparr>timer_alive := False\<rparr> else h)"

definition on_tool_end :: "handler \<Rightarrow> handler" where
  "on_tool_end h = h\<lparr>tool_executing := False, current_tool := None\<rparr>"

text \<open>\<open>_trigger_interstitial\<close>, the function the timer calls when it fires.\<close>

definition trigger_interstitial :: "handler \<Rightarrow> handler" where
  "trigger_interstitial h =
     (if \<not> interstitial_sent h \<and> \<not> interstitial_ready h then
        (if call_end_detected h \<or> handoff_detected h then h
         else h\<lparr>interstitial_ready := True\<rparr>)
      else h)"

text \<open>
  The timer thread: a pending timer ends and calls \<open>_trigger_interstitial\<close>; without a
  pending timer nothing fires.
\<close>

definition timer_fire :: "handler \<Rightarrow> handler" where
  "timer_fire h =
     (if timer_alive h then trigger_interstitial (h\<lparr>timer_alive := False\<rparr>) else h)"

text \<open>
  \<open>get_next_interstitial\<close> returns the phrase and the handler with the cursor advanced;
  \<open>None\<close> stands for the \<open>IndexError\<close> of \<open>interstitial_phrases[phrase_index]\<close> out of
  range, raised before anything is assigned.
\<close>

definition get_next_interstitial :: "handler \<Rightarrow> (string \<times> handler) option" where
  "get_next_interstitial h =
     (if phrase_index h < length interstitial_phrases
      then Some (interstitial_phrases ! phrase_index h,
                 h\<lparr>phrase_index := (phrase_index h + 1) mod length interstitial_phrases\<rparr>)
      else None)"

definition should_send_interstitial :: "handler \<Rightarrow> bool" where
  "should_send_interstitial h =
     (interstitial_ready h \<and> \<not> interstitial_sent h \<and>
      \<not> call_end_detected h \<and> \<not> handoff_detected h)"

section \<open>The turn generator (agent.py)\<close>

text \<open>An event yielded by \<open>generate_agent_response_stream\<close>, with the keys of its dictionary.\<close>

record event =
  chunk :: string
  is_final :: bool
  should_end_call :: bool
  should_handoff :: bool
  is_interstitial :: bool

definition interstitial_event :: "string \<Rightarrow> event" where
  "interstitial_event interstitial =
     \<lparr>chunk = interstitial, is_final = True, should_end_call = False,
      should_handoff = False, is_interstitial = True\<rparr>"

definition token_event :: "handler \<Rightarrow> string \<Rightarrow> event" where
  "token_event h token =
     \<lparr>chunk = token, is_final = False, should_end_call = call_end_detected h,
      should_handoff = handoff_detected h, is_interstitial = False\<rparr>"

definition final_event :: "handler \<Rightarrow> event" where
  "final_event h =
     \<lparr>chunk = [], is_final = True, should_end_call = call_end_detected h,
      should_handoff = handoff_detected h, is_interstitial = False\<rparr>"

definition fallback_event :: event where
  "fallback_event =
     \<lparr>chunk = ''I'' @ [CHR 0x27] @ ''m sorry, I'' @ [CHR 0x27] @
              ''m having trouble processing your request right now.'',
      is_final = True, should_end_call = False, should_handoff = False,
      is_interstitial = False\<rparr>"

text \<open>
  The reset of the handler at the start of a turn (lines 132 to 142): every attribute
  named there is cleared, a pending timer is cancelled, \<open>phrase_index\<close> and
  \<open>current_tool\<close> are not assigned.
\<close>

definition reset_handler :: "handler \<Rightarrow> handler" where
  "reset_handler h =
     h\<lparr>buffer := [], tokens := [], tool_executing := False, call_end_detected := False,
       handoff_detected := False, interstitial_sent := False, interstitial_ready := False,
       sent_interstitials := [], timer_alive := False\<rparr>"

text \<open>
  What the other threads do to the handler while the generator's loop runs: the callbacks
  LangChain invokes from the agent thread, and the firing of the timer.
\<close>

datatype callback =
    LlmStart
  | NewToken string
  | ToolStart string
  | ToolEnd
  | LlmEnd
  | TimerFire

fun callback_step :: "callback \<Rightarrow> handler \<Rightarrow> handler" where
  "callback_step LlmStart h = on_llm_start h"
| "callback_step (NewToken token) h = on_llm_new_token h token"
| "callback_step (ToolStart tool_name) h = on_tool_start h tool_name"
| "callback_step ToolEnd h = on_tool_end h"
| "callback_step LlmEnd h = on_llm_end h"
| "callback_step TimerFire h = timer_fire h"

text \<open>
  The local variables of the streaming loop together with the handler and the events
  yielded so far.
\<close>

record loop_state =
  stream_handler :: handler
  last_token_count :: nat
  interstitial_sent_this_response :: bool
  yielded :: "event list"

text \<open>
  One iteration of the \<open>while\<close> loop (lines 161 to 190), taken as one step: the
  interstitial check with its \<open>yield\<close>, then the tokens
  \<open>tokens[last_token_count:current_token_count]\<close>, each with the two flags of the
  handler. \<open>None\<close> is the \<open>IndexError\<close> of \<open>get_next_interstitial\<close>, which leaves the
  loop before anything is yielded.
\<close>

definition loop_body :: "loop_state \<Rightarrow> loop_state option" where
  "loop_body s =
     (let current_token_count = length (tokens (stream_handler s));
          s1 = (if should_send_interstitial (stream_handler s) \<and>
                   \<not> interstitial_sent_this_response s
                then (case get_next_interstitial (stream_handler s) of
                        None \<Rightarrow> None
                      | Some (interstitial, h) \<Rightarrow>
                          Some (s\<lparr>stream_handler :=
                                     h\<lparr>interstitial_sent := True, interstitial_ready := False,
                                       sent_interstitials := sent_interstitials h @ [interstitial]\<rparr>,
                                   interstitial_sent_this_response := True,
                                   yielded := yielded s @ [interstitial_event interstitial]\<rparr>))
                else Some s)
      in case s1 of
           None \<Rightarrow> None
         | Some s2 \<Rightarrow>
             Some (s2\<lparr>yielded := yielded s2 @
                          map (token_event (stream_handler s2))
                            (drop (last_token_count s2)
                               (take current_token_count (tokens (stream_handler s2)))),
                       last_token_count := current_token_count\<rparr>))"

text \<open>
  The loop while the agent thread is alive: the list gives the order in which the
  callbacks of the other threads and the iterations of the loop take place. Callbacks
  take place between iterations, so that the attributes an iteration reads are those of
  one instant. The boolean tells whether an iteration raised.
\<close>

datatype action = Callback callback | Poll

fun run_loop :: "action list \<Rightarrow> loop_state \<Rightarrow> loop_state \<times> bool" where
  "run_loop [] s = (s, False)"
| "run_loop (Callback c # rest) s =
     run_loop rest (s\<lparr>stream_handler := callback_step c (stream_handler s)\<rparr>)"
| "run_loop (Poll # rest) s =
     (case loop_body s of None \<Rightarrow> (s, True) | Some s' \<Rightarrow> run_loop rest s')"

text \<open>
  The loop after the agent thread has ended: it goes on while
  \<open>last_token_count < len(stream_handler.tokens)\<close>. No callback arrives any more; a
  timer still pending at that point is taken not to fire before the loop ends.
\<close>

function drain :: "loop_state \<Rightarrow> loop_state \<times> bool" where
  "drain s =
     (if last_token_count s < length (tokens (stream_handler s))
      then (case loop_body s of None \<Rightarrow> (s, True) | Some s' \<Rightarrow> drain s')
      else (s, False))"
  by pat_completeness auto
termination
proof (relation "measure (\<lambda>s. length (tokens (stream_handler s)) - last_token_count s)")
  show "wf (measure (\<lambda>s. length (tokens (stream_handler s)) - last_token_count s))" by simp
next
  fix s s' :: loop_state
  assume a: "last_token_count s < length (tokens (stream_handler s))" "loop_body s = Some s'"
  from a(2) have "last_token_count s' = length (tokens (stream_handler s))
                  \<and> tokens (stream_handler s') = tokens (stream_handler s)"
    by (auto simp: loop_body_def Let_def get_next_interstitial_def
             split: if_splits option.splits)
  with a(1) show "(s', s) \<in> measure (\<lambda>s. length (tokens (stream_handler s)) - last_token_count s)"
    by simp
qed

declare drain.simps [simp del]

text \<open>
  The whole \<open>while\<close> loop: the iterations while the agent thread is alive, then, unless
  one of them raised, the iterations after its end.
\<close>

definition streaming_loop :: "action list \<Rightarrow> loop_state \<Rightarrow> loop_state \<times> bool" where
  "streaming_loop acts s =
     (let (s1, raised1) = run_loop acts s in if raised1 then (s1, True) else drain s1)"

text \<open>
  The same loop with a finer interleaving. Between the test of line 164 and the \<open>yield\<close>
  of line 171 the generator holds no lock, so a callback of another thread can take
  place in between. An iteration is therefore also given in two steps: \<open>poll_test\<close>
  reads \<open>current_token_count\<close> and evaluates the test; \<open>poll_body\<close> does the rest of
  the iteration with that outcome.
\<close>

definition poll_test :: "loop_state \<Rightarrow> nat \<times> bool" where
  "poll_test s =
     (length (tokens (stream_handler s)),
      should_send_interstitial (stream_handler s) \<and> \<not> interstitial_sent_this_response s)"

definition poll_body :: "nat \<times> bool \<Rightarrow> loop_state \<Rightarrow> loop_state option" where
  "poll_body d s =
     (let current_token_count = fst d;
          s1 = (if snd d
                then (case get_next_interstitial (stream_handler s) of
                        None \<Rightarrow> None
                      | Some (interstitial, h) \<Rightarrow>
                          Some (s\<lparr>stream_handler :=
                                     h\<lparr>interstitial_sent := True, interstitial_ready := False,
                                       sent_interstitials := sent_interstitials h @ [interstitial]\<rparr>,
                                   interstitial_sent_this_response := True,
                                   yielded := yielded s @ [interstitial_event interstitial]\<rparr>))
                else Some s)
      in case s1 of
           None \<Rightarrow> None
         | Some s2 \<Rightarrow>
             Some (s2\<lparr>yielded := yielded s2 @
                          map (token_event (stream_handler s2))
                            (drop (last_token_count s2)
                               (take current_token_count (tokens (stream_handler s2)))),
                       last_token_count := current_token_count\<rparr>))"

text \<open>
  A state of the finer loop is a state of the loop together with the outcome of a test
  whose body has not run yet, if there is one. \<open>Test\<close> and \<open>Body\<close> are the two steps of
  an iteration (a step that is not due is skipped), \<open>Background\<close> is a callback of
  another thread. \<open>_trigger_interstitial\<close> holds no lock either: \<open>TimerSet\<close> is its
  assignment \<open>self.interstitial_ready = True\<close> alone, by a timer thread that has
  evaluated its two conditions earlier; it is admitted at any point.
\<close>

datatype fine_action = Background callback | TimerSet | Test | Body

fun run_fine ::
  "fine_action list \<Rightarrow> loop_state \<times> (nat \<times> bool) option \<Rightarrow>
     (loop_state \<times> (nat \<times> bool) option) \<times> bool" where
  "run_fine [] st = (st, False)"
| "run_fine (Background c # rest) (s, d) =
     run_fine rest (s\<lparr>stream_handler := callback_step c (stream_handler s)\<rparr>, d)"
| "run_fine (TimerSet # rest) (s, d) =
     run_fine rest (s\<lparr>stream_handler := (stream_handler s)\<lparr>interstitial_ready := True\<rparr>\<rparr>, d)"
| "run_fine (Test # rest) (s, None) = run_fine rest (s, Some (poll_test s))"
| "run_fine (Test # rest) (s, Some d) = run_fine rest (s, Some d)"
| "run_fine (Body # rest) (s, Some d) =
     (case poll_body d s of None \<Rightarrow> ((s, Some d), True) | Some s' \<Rightarrow> run_fine rest (s', None))"
| "run_fine (Body # rest) (s, None) = run_fine rest (s, None)"

text \<open>
  The whole loop with the finer interleaving: when the agent thread has ended, a body
  that is still due runs, then the iterations after the end of the thread.
\<close>

definition fine_loop ::
  "fine_action list \<Rightarrow> loop_state \<times> (nat \<times> bool) option \<Rightarrow> loop_state \<times> bool" where
  "fine_loop acts st =
     (let ((s1, d), raised1) = run_fine acts st
      in if raised1 then (s1, True)
         else case d of
                None \<Rightarrow> drain s1
              | Some d1 \<Rightarrow> (case poll_body d1 s1 of None \<Rightarrow> (s1, True) | Some s2 \<Rightarrow> drain s2))"

text \<open>An interleaving of whole iterations, as an interleaving of their steps.\<close>

fun expand :: "action list \<Rightarrow> fine_action list" where
  "expand [] = []"
| "expand (Callback c # rest) = Background c # expand rest"
| "expand (Poll # rest) = Test # Body # expand rest"


text \<open>The local variables when the loop starts (lines 157 and 158).\<close>

definition loop_start :: "handler \<Rightarrow> loop_state" where
  "loop_start h =
     \<lparr>stream_handler = h, last_token_count = 0, interstitial_sent_this_response = False,
      yielded = []\<rparr>"

text \<open>
  The entries appended when the turn succeeds (lines 202 to 217): the reply, with the
  sentinel marker stripped when the matching flag is set, then the interstitials sent.
\<close>

definition finalize_history :: "handler \<Rightarrow> entry list \<Rightarrow> entry list" where
  "finalize_history h history =
     (let full_response = concat (tokens h);
          clean_response =
            (if call_end_detected h \<and> contains full_response ''CALL_END:''
             then strip (after_first full_response ''CALL_END:'')
             else if handoff_detected h \<and> contains full_response ''HANDOFF_HUMAN:''
             then strip (after_first full_response ''HANDOFF_HUMAN:'')
             else full_response)
      in history @ [\<lparr>role = ''assistant'', content = clean_response, entry_type = None\<rparr>] @
         map (\<lambda>interstitial. \<lparr>role = ''assistant'', content = interstitial,
                               entry_type = Some ''interstitial''\<rparr>)
           (sent_interstitials h))"

text \<open>
  What a turn does not decide itself: the order of the callbacks and of the loop
  iterations while the agent thread runs, whether the agent thread ends with an
  exception, and whether building the agent for a new session raises.
\<close>

record env =
  schedule :: "action list"
  agent_raises :: bool
  create_agent_raises :: bool

text \<open>
  The global \<open>AGENT_SESSIONS\<close> is a map from session identifiers to handlers (the agent
  and its memory are not modelled); a session that is not in it gets a new handler.
\<close>

definition session_handler :: "(string \<rightharpoonup> handler) \<Rightarrow> string \<Rightarrow> handler" where
  "session_handler agent_sessions session_id =
     (case agent_sessions session_id of None \<Rightarrow> init_handler | Some h \<Rightarrow> h)"

text \<open>
  \<open>generate_agent_response_stream\<close>. The result is the list of events yielded, the
  histories and the sessions. Every exception inside the \<open>try\<close> ends in the fallback
  event.
\<close>

definition generate_agent_response_stream ::
  "string \<Rightarrow> string \<Rightarrow> env \<Rightarrow> (string \<rightharpoonup> entry list) \<Rightarrow> (string \<rightharpoonup> handler) \<Rightarrow>
     event list \<times> (string \<rightharpoonup> entry list) \<times> (string \<rightharpoonup> handler)" where
  "generate_agent_response_stream session_id user_message e conversation_histories agent_sessions =
     (let history = (case conversation_histories session_id of None \<Rightarrow> [] | Some h \<Rightarrow> h) @
                      [\<lparr>role = ''user'', content = user_message, entry_type = None\<rparr>];
          histories1 = conversation_histories(session_id \<mapsto> history)
      in if agent_sessions session_id = None \<and> create_agent_raises e
         then ([fallback_event], histories1, agent_sessions)
         else
           let (s, raised) = streaming_loop (schedule e)
                               (loop_start (reset_handler (session_handler agent_sessions session_id)));
               sessions1 = agent_sessions(session_id \<mapsto> stream_handler s)
           in if raised \<or> agent_raises e
              then (yielded s @ [fallback_event], histories1, sessions1)
              else (yielded s @ [final_event (stream_handler s)],
                    histories1(session_id \<mapsto> finalize_history (stream_handler s) history),
                    sessions1))"

text \<open>The turns of one session, one after the other, with all the events they yield.\<close>

fun run_turns ::
  "string \<Rightarrow> (string \<times> env) list \<Rightarrow> (string \<rightharpoonup> entry list) \<Rightarrow> (string \<rightharpoonup> handler) \<Rightarrow>
     event list \<times> (string \<rightharpoonup> entry list) \<times> (string \<rightharpoonup> handler)" where
  "run_turns session_id [] conversation_histories agent_sessions =
     ([], conversation_histories, agent_sessions)"
| "run_turns session_id ((user_message, e) # rest) conversation_histories agent_sessions =
     (let (events, histories1, sessions1) =
            generate_agent_response_stream session_id user_message e
              conversation_histories agent_sessions;
          (events', histories2, sessions2) = run_turns session_id rest histories1 sessions1
      in (events @ events', histories2, sessions2))"

text \<open>
  Predicates on the state of the loop used in the proofs: at most one interstitial has
  been yielded, and none before the local flag is set; every event yielded is an
  interstitial with a phrase of the rotation or a token event; the interstitials yielded
  are the phrases from cursor \<open>p\<close> on, in rotation order.
\<close>

definition at_most_one :: "loop_state \<Rightarrow> bool" where
  "at_most_one s =
     (if interstitial_sent_this_response s
      then length (filter is_interstitial (yielded s)) \<le> 1
      else filter is_interstitial (yielded s) = [])"

definition loop_event :: "event \<Rightarrow> bool" where
  "loop_event ev =
     (if is_interstitial ev then chunk ev \<in> set interstitial_phrases else \<not> is_final ev)"

definition rotation :: "nat \<Rightarrow> nat \<Rightarrow> string list" where
  "rotation p n =
     map (\<lambda>i. interstitial_phrases ! ((p + i) mod length interstitial_phrases)) [0 ..< n]"

definition interstitial_chunks :: "event list \<Rightarrow> string list" where
  "interstitial_chunks events = map chunk (filter is_interstitial events)"

section \<open>The relay to the outbound channel (llm\_handler.py)\<close>

text \<open>
  The messages sent on the websocket: a text message with its \<open>token\<close> and its \<open>last\<close>
  flag, the hang-up message and the hand-off message.
\<close>

datatype ws_message =
    Text string bool
  | End
  | Handoff

fun token :: "ws_message \<Rightarrow> string" where
  "token (Text t l) = t"
| "token End = []"
| "token Handoff = []"

text \<open>
  The local variables of \<open>llm_call_response_streaming\<close>; \<open>relay_should_end_call\<close> and
  \<open>relay_should_handoff\<close> are its variables \<open>should_end_call\<close> and \<open>should_handoff\<close>,
  \<open>sent\<close> lists the messages sent so far.
\<close>

record relay_state =
  full_response_parts :: "string list"
  relay_should_end_call :: bool
  relay_should_handoff :: bool
  end_call_logged :: bool
  handoff_logged :: bool
  token_buffer :: string
  sent :: "ws_message list"

definition init_relay :: relay_state where
  "init_relay =
     \<lparr>full_response_parts = [], relay_should_end_call = False, relay_should_handoff = False,
      end_call_logged = False, handoff_logged = False, token_buffer = [], sent = []\<rparr>"

text \<open>\<open>chunk.strip().endswith(('.', '!', '?', ',', ';', ':'))\<close>.\<close>

definition ends_with_punctuation :: "string \<Rightarrow> bool" where
  "ends_with_punctuation c =
     (\<exists>p \<in> set [''.'', ''!'', ''?'', '','', '';'', '':'']. endswith (strip c) p)"

text \<open>The body of the \<open>async for\<close> loop, for one event of the generator.\<close>

definition relay_step :: "relay_state \<Rightarrow> event \<Rightarrow> relay_state" where
  "relay_step st chunk_data =
     (if is_interstitial chunk_data
      then st\<lparr>sent := sent st @ [Text (chunk chunk_data) True]\<rparr>
      else
        let st1 = st\<lparr>full_response_parts := full_response_parts st @ [chunk chunk_data],
                     token_buffer := token_buffer st @ chunk chunk_data\<rparr>;
            st2 = (if should_end_call chunk_data \<and> \<not> end_call_logged st1
                   then st1\<lparr>relay_should_end_call := True, end_call_logged := True\<rparr>
                   else st1);
            st3 = (if should_handoff chunk_data \<and> \<not> handoff_logged st2
                   then st2\<lparr>relay_should_handoff := True, handoff_logged := True\<rparr>
                   else st2);
            words_in_buffer = length (split (strip (token_buffer st3)));
            should_send = (is_final chunk_data \<or> words_in_buffer \<ge> 3 \<or>
                           ends_with_punctuation (chunk chunk_data))
        in if should_send \<and> strip (token_buffer st3) \<noteq> []
           then
             let send_chunk = (if length (token_buffer st3) > 200
                               then take 197 (token_buffer st3) @ ''...''
                               else token_buffer st3)
             in st3\<lparr>sent := sent st3 @ [Text send_chunk False], token_buffer := []\<rparr>
           else st3)"

text \<open>
  After the loop: the remaining buffer, sent as it is, and the completion message.
\<close>

definition relay_flush :: "relay_state \<Rightarrow> relay_state" where
  "relay_flush st =
     (let st1 = (if strip (token_buffer st) \<noteq> []
                 then st\<lparr>sent := sent st @ [Text (token_buffer st) False]\<rparr>
                 else st)
      in st1\<lparr>sent := sent st1 @ [Text [] True]\<rparr>)"

text \<open>
  The fallback detection of the hand-off marker in the text of the reply (lines 152 to
  166), and the message that ends the conversation. The pause before that message is
  not modelled.
\<close>

definition relay_finish :: "relay_state \<Rightarrow> relay_state" where
  "relay_finish st =
     (let full_response = concat (full_response_parts st);
          st1 = (if \<not> relay_should_handoff st \<and> contains full_response ''HANDOFF_HUMAN:''
                 then st\<lparr>relay_should_handoff := True\<rparr>
                 else st)
      in if relay_should_handoff st1 then st1\<lparr>sent := sent st1 @ [Handoff]\<rparr>
         else if relay_should_end_call st1 then st1\<lparr>sent := sent st1 @ [End]\<rparr>
         else st1)"

text \<open>
  \<open>llm_call_response_streaming\<close> on the events of the generator. Failures of the
  websocket itself are outside the model.
\<close>

definition llm_call_response_streaming :: "event list \<Rightarrow> relay_state" where
  "llm_call_response_streaming events =
     relay_finish (relay_flush (foldl relay_step init_relay events))"

text \<open>Histories used as concrete inputs below.\<close>

definition example_history :: "entry list" where
  "example_history =
     [\<lparr>role = ''user'', content = ''bye'', entry_type = None\<rparr>,
      \<lparr>role = ''assistant'', content = ''Thank you for calling CoffeeMarket! Goodbye!'',
        entry_type = None\<rparr>]"

definition example_redacted :: "entry list" where
  "example_redacted =
     [\<lparr>role = ''user'', content = ''bye'', entry_type = None\<rparr>,
      \<lparr>role = ''assistant'', content = ''Thank you for calling'', entry_type = None\<rparr>]"

definition example_unspoken :: "entry list" where
  "example_unspoken =
     [\<lparr>role = ''user'', content = ''bye'', entry_type = None\<rparr>,
      \<lparr>role = ''assistant'', content = ''Goodbye!'', entry_type = None\<rparr>]"



definition cursor_ok :: "nat \<Rightarrow> loop_state \<Rightarrow> bool" where
  "cursor_ok p s =
     (interstitial_chunks (yielded s) = rotation p (length (interstitial_chunks (yielded s))) \<and>
      phrase_index (stream_handler s) =
        (p + length (interstitial_chunks (yielded s))) mod length interstitial_phrases)"

definition sent_ok :: "relay_state \<Rightarrow> bool" where
  "sent_ok st = (\<forall>m \<in> set (sent st). length (token m) \<le> 200)"

text \<open>
  Turns used as concrete inputs below. In \<open>late_tool_env\<close> a token arrives and is
  yielded before a tool starts and its timer fires. In \<open>tool_env\<close> the tool starts
  first. In \<open>failing_env\<close> the agent thread ends with an exception. In
  \<open>long_token_env\<close> the reply is one token of 250 characters. In
  \<open>call_end_marker_env\<close> and \<open>handoff_marker_env\<close> the reply carries a sentinel marker
  and no tool is invoked. In \<open>tool_raises_env\<close> a tool starts and raises, which ends
  the agent thread; \<open>plain_env\<close> is a turn without tools.
\<close>

definition late_tool_schedule :: "action list" where
  "late_tool_schedule =
     [Callback LlmStart, Callback (NewToken ''Hello''), Poll,
      Callback (ToolStart ''check_stock''), Callback TimerFire, Poll]"

definition late_tool_env :: env where
  "late_tool_env =
     \<lparr>schedule = late_tool_schedule, agent_raises = False, create_agent_raises = False\<rparr>"

definition tool_env :: env where
  "tool_env =
     \<lparr>schedule = [Callback LlmStart, Callback (ToolStart ''check_stock''), Callback TimerFire,
                  Poll, Callback ToolEnd, Callback (NewToken ''Done.''), Poll, Callback LlmEnd],
      agent_raises = False, create_agent_raises = False\<rparr>"

definition failing_env :: env where
  "failing_env =
     \<lparr>schedule = [Callback LlmStart, Callback (NewToken ''Let''), Poll],
      agent_raises = True, create_agent_raises = False\<rparr>"

definition long_token_env :: env where
  "long_token_env =
     \<lparr>schedule = [Callback LlmStart, Callback (NewToken (replicate 250 CHR ''a'')), Poll,
                  Callback LlmEnd],
      agent_raises = False, create_agent_raises = False\<rparr>"

definition call_end_marker_env :: env where
  "call_end_marker_env =
     \<lparr>schedule = [Callback LlmStart, Callback (NewToken ''CALL_END: Goodbye!''), Poll,
                  Callback LlmEnd],
      agent_raises = False, create_agent_raises = False\<rparr>"

definition handoff_marker_env :: env where
  "handoff_marker_env =
     \<lparr>schedule = [Callback LlmStart, Callback (NewToken ''HANDOFF_HUMAN: Please hold.''), Poll,
                  Callback LlmEnd],
      agent_raises = False, create_agent_raises = False\<rparr>"





text \<open>
  Two states of the loop: one in which a timer has fired after a first token, one just
  after the \<open>end_call\<close> tool has started.
\<close>

definition ready_state :: loop_state where
  "ready_state =
     loop_start (timer_fire (on_tool_start (on_llm_new_token (reset_handler init_handler) ''Hi'')
                               ''check_stock''))"


section \<open>Properties of the string operations\<close>

lemma find_str_Some:
  "find_str s sub = Some i \<Longrightarrow>
     take (length sub) (drop i s) = sub \<and> (\<forall>j<i. take (length sub) (drop j s) \<noteq> sub)"
proof (induction s arbitrary: i)
  case Nil
  then show ?case by (auto split: if_splits)
next
  case (Cons c cs)
  show ?case
  proof (cases "startswith (c # cs) sub")
    case True
    with Cons.prems show ?thesis by (simp add: startswith_def)
  next
    case False
    with Cons.prems obtain i' where i': "find_str cs sub = Some i'" "i = Suc i'"
      by auto
    from Cons.IH[OF i'(1)] have ih: "take (length sub) (drop i' cs) = sub"
      "\<forall>j<i'. take (length sub) (drop j cs) \<noteq> sub" by auto
    have "\<forall>j<i. take (length sub) (drop j (c # cs)) \<noteq> sub"
    proof (intro allI impI)
      fix j assume "j < i"
      show "take (length sub) (drop j (c # cs)) \<noteq> sub"
      proof (cases j)
        case 0
        with False show ?thesis by (simp add: startswith_def)
      next
        case (Suc j')
        with \<open>j < i\<close> i'(2) ih(2) show ?thesis by simp
      qed
    qed
    with ih(1) i'(2) show ?thesis by simp
  qed
qed

lemma find_str_None: "find_str s sub = None \<Longrightarrow> \<not> sublist sub s"
proof (induction s)
  case Nil
  then show ?case by (auto split: if_splits)
next
  case (Cons c cs)
  then have ns: "\<not> startswith (c # cs) sub" and "find_str cs sub = None"
    by (auto split: if_splits)
  with Cons.IH have "\<not> sublist sub cs" by simp
  moreover from ns have "\<not> prefix sub (c # cs)"
    by (auto simp: startswith_def prefix_def)
  ultimately show ?case by (simp add: sublist_Cons_right)
qed

lemma find_str_Some_sublist: "find_str s sub = Some i \<Longrightarrow> sublist sub s"
proof -
  assume "find_str s sub = Some i"
  from find_str_Some[OF this] have "take (length sub) (drop i s) = sub" by simp
  then have "s = take i s @ sub @ drop (length sub) (drop i s)"
    by (metis append_take_drop_id)
  then show ?thesis unfolding sublist_def by blast
qed

lemma lower_take: "lower (take n s) = take n (lower s)"
  by (simp add: lower_def take_map)

lemma length_lower: "length (lower s) = length s"
  by (simp add: lower_def)

lemma is_space_lower_char: "is_space (lower_char c) = is_space c"
  unfolding is_space_def lower_char_def Let_def
  by (auto simp: of_char_of [where ?'a = nat])

lemma split_aux_lower: "split_aux (lower w) (lower s) = map lower (split_aux w s)"
proof (induction s arbitrary: w)
  case Nil
  then show ?case by (simp add: lower_def)
next
  case (Cons c cs)
  have a: "lower (c # cs) = lower_char c # lower cs" by (simp add: lower_def)
  have b: "lower (w @ [c]) = lower w @ [lower_char c]" by (simp add: lower_def)
  have c: "lower [] = []" by (simp add: lower_def)
  have d: "(lower w = []) = (w = [])" by (simp add: lower_def)
  show ?case
    using Cons.IH[of "[]"] Cons.IH[of "w @ [c]"]
    by (simp add: a b c d is_space_lower_char)
qed

lemma split_lower: "split (lower s) = map lower (split s)"
  using split_aux_lower[of "[]" s] by (simp add: split_def lower_def)

section \<open>The exact-match path of the redactor\<close>

lemma find_spoken_portion_exact_match_branch:
  "U \<noteq> [] \<Longrightarrow> T \<noteq> [] \<Longrightarrow>
     find_spoken_portion T U =
       (case exact_match T (lower T) (lower U) of Some r \<Rightarrow> r | None \<Rightarrow> word_match T U)"
  by (simp add: find_spoken_portion_def exact_match_def Let_def split: option.splits)

lemma lower_code_point_below_256: "lower_code_point (of_char c) = [of_char (lower_char c)]"
proof -
  have "(of_char c :: nat) < 256" by simp
  then have n: "(of_char c :: nat) \<noteq> 304" by arith
  show ?thesis
    unfolding lower_code_point_def lower_char_def Let_def
    using n by (auto simp: of_char_of [where ?'a = nat])
qed

lemma lower_code_points_below_256: "lower_code_points (code_points s) = code_points (lower s)"
  by (induction s)
     (simp_all add: lower_code_points_def code_points_def lower_def lower_code_point_below_256)

lemma code_points_eq_iff: "(code_points a = code_points b) = (a = b)"
  unfolding code_points_def by (rule inj_map_eq_map) (rule inj_of_char)

lemma code_points_take: "take n (code_points a) = code_points (take n a)"
  by (simp add: code_points_def take_map)

lemma startswith_code_points: "startswith (code_points a) (code_points b) = startswith a b"
proof -
  have "length (code_points b) = length b" by (simp add: code_points_def)
  then show ?thesis by (simp add: startswith_def code_points_take code_points_eq_iff)
qed

lemma find_str_code_points: "find_str (code_points a) (code_points b) = find_str a b"
proof (induction a)
  case Nil
  then show ?case by (simp add: code_points_def)
next
  case (Cons c cs)
  have "code_points (c # cs) = of_char c # code_points cs" by (simp add: code_points_def)
  with Cons startswith_code_points[of "c # cs" b] show ?case by simp
qed

lemma find_spoken_portion_exact_below_256:
  assumes "U \<noteq> []" "T \<noteq> []"
  shows "find_spoken_portion_exact (code_points T) (code_points U) =
       map_option code_points (exact_match T (lower T) (lower U))"
proof -
  have ne: "code_points U \<noteq> []" "code_points T \<noteq> []"
    using assms by (simp_all add: code_points_def)
  have len: "length (code_points (lower U)) = length (lower U)" by (simp add: code_points_def)
  show ?thesis
    using ne len
    by (simp add: find_spoken_portion_exact_def exact_match_def lower_code_points_below_256
          find_str_code_points code_points_take split: option.splits)
qed

text \<open>
  On texts whose code points are all below 256 the exact-match path does what the
  specification says. For every text \<open>T\<close> the result is empty when the utterance is
  empty. When a non-empty utterance \<open>U\<close> occurs in \<open>T\<close> up to case, the result is the
  prefix of \<open>T\<close>, in its original case, that ends where the first occurrence of \<open>U\<close>
  ends: it is \<open>take (i + length U) T\<close> for the lowest position \<open>i\<close> at which the lowered
  texts match.
\<close>

lemma exact_match_below_256:
  "find_spoken_portion T [] = [] \<and>
   (U \<noteq> [] \<and> sublist (lower U) (lower T) \<longrightarrow>
      (\<exists>i. find_spoken_portion T U = take (i + length U) T \<and>
           lower (find_spoken_portion T U) = take i (lower T) @ lower U \<and>
           (\<forall>j<i. take (length U) (drop j (lower T)) \<noteq> lower U)))"
proof (intro conjI impI)
  show "find_spoken_portion T [] = []" by (simp add: find_spoken_portion_def)
next
  assume h: "U \<noteq> [] \<and> sublist (lower U) (lower T)"
  then have "T \<noteq> []" by (auto simp: lower_def)
  from h obtain i where i: "find_str (lower T) (lower U) = Some i"
    using find_str_None by (cases "find_str (lower T) (lower U)") auto
  from find_str_Some[OF i] have m: "take (length U) (drop i (lower T)) = lower U"
    and first: "\<forall>j<i. take (length U) (drop j (lower T)) \<noteq> lower U"
    by (simp_all add: length_lower)
  have r: "find_spoken_portion T U = take (i + length U) T"
    using h \<open>T \<noteq> []\<close> i by (simp add: find_spoken_portion_def Let_def length_lower)
  have "take (i + length U) (lower T) = take i (lower T) @ take (length U) (drop i (lower T))"
    by (simp add: take_add)
  with m r have "lower (find_spoken_portion T U) = take i (lower T) @ lower U"
    by (simp add: lower_take)
  with r first show "\<exists>i. find_spoken_portion T U = take (i + length U) T \<and>
           lower (find_spoken_portion T U) = take i (lower T) @ lower U \<and>
           (\<forall>j<i. take (length U) (drop j (lower T)) \<noteq> lower U)" by blast
qed

text \<open>
  Claim C7 says that for every full text \<open>T\<close> and every non-empty utterance \<open>U\<close> that
  occurs in \<open>T\<close> up to case, the result is the prefix of \<open>T\<close> up to and including the
  end of the first match. The code takes the end position of the match in the lowered
  text and cuts the original text there, and lowering can lengthen a text. For the text
  of the 24 code points U+0130 followed by \<open>stanbul coffee is great\<close> and the utterance
  \<open>coffee\<close>, the lowered text has 25 code points, the match starts at position 10 in
  it and at position 9 in the original, and the result has 16 code points: the prefix
  that ends with the match (15 code points) and the space after it.
\<close>

theorem exact_match_overshoots_after_lengthening:
  "length (304 # code_points ''stanbul coffee is great'') = 24 \<and>
   lower_code_points (304 # code_points ''stanbul coffee is great'') =
     105 # 775 # code_points ''stanbul coffee is great'' \<and>
   lower_code_points (code_points ''coffee'') = code_points ''coffee'' \<and>
   find_str (lower_code_points (304 # code_points ''stanbul coffee is great''))
     (lower_code_points (code_points ''coffee'')) = Some 10 \<and>
   find_str (304 # code_points ''stanbul coffee is great'') (code_points ''coffee'') = Some 9 \<and>
   take (9 + length (code_points ''coffee'')) (304 # code_points ''stanbul coffee is great'') =
     304 # code_points ''stanbul coffee'' \<and>
   find_spoken_portion_exact (304 # code_points ''stanbul coffee is great'') (code_points ''coffee'') =
     Some (304 # code_points ''stanbul coffee '')"
  by code_simp

section \<open>The word-alignment fallback of the redactor\<close>

lemma scan_full:
  "es = ps @ e # qs \<Longrightarrow> full_at uw fw e \<Longrightarrow> \<forall>p\<in>set ps. \<not> full_at uw fw p \<Longrightarrow>
     scan uw fw es b = e"
proof (induction ps arbitrary: es b)
  case Nil
  then show ?case by (simp add: full_at_def)
next
  case (Cons p ps)
  then show ?case by (simp add: full_at_def Let_def)
qed

lemma scan_no_full_none:
  "\<forall>e\<in>set es. \<not> full_at uw fw e \<Longrightarrow> \<forall>e\<in>set es. \<not> partial_at uw fw e \<Longrightarrow>
     scan uw fw es b = b"
  by (induction es arbitrary: b) (simp_all add: full_at_def partial_at_def Let_def)

lemma scan_no_full_last:
  "es = ps @ e # qs \<Longrightarrow> \<forall>x\<in>set es. \<not> full_at uw fw x \<Longrightarrow> partial_at uw fw e \<Longrightarrow>
     \<forall>q\<in>set qs. \<not> partial_at uw fw q \<Longrightarrow> scan uw fw es b = e"
proof (induction ps arbitrary: es b)
  case Nil
  then have "scan uw fw es b = scan uw fw qs e"
    by (simp add: full_at_def partial_at_def Let_def)
  also have "\<dots> = e"
    using Nil by (intro scan_no_full_none) auto
  finally show ?case .
next
  case (Cons p ps)
  have "scan uw fw es b = scan uw fw (ps @ e # qs) (if partial_at uw fw p then p else b)"
    using Cons.prems by (simp add: full_at_def partial_at_def Let_def)
  also have "\<dots> = e"
    using Cons.prems by (intro Cons.IH) auto
  finally show ?case .
qed

lemma upt_split3: "1 \<le> e \<Longrightarrow> e \<le> n \<Longrightarrow> [1 ..< Suc n] = [1 ..< e] @ e # [Suc e ..< Suc n]"
  by (metis le_imp_less_Suc less_imp_le_nat upt_conv_Cons upt_add_eq_append le_Suc_ex One_nat_def)

lemma fallback_result:
  assumes "U \<noteq> []" "T \<noteq> []" "\<not> sublist (lower U) (lower T)" "split U \<noteq> []"
  shows "find_spoken_portion T U =
      join '' '' (take (best_match_pos (split (lower U)) (split (lower T))) (split T))"
proof -
  have "find_str (lower T) (lower U) = None"
    using assms(3) find_str_Some_sublist by (cases "find_str (lower T) (lower U)") auto
  with assms have "find_spoken_portion T U = word_match T U"
    by (simp add: find_spoken_portion_def)
  moreover have "word_match T U =
      join '' '' (take (best_match_pos (split (lower U)) (split (lower T))) (split T))"
    using assms by (auto simp: word_match_def Let_def split_lower)
  ultimately show ?thesis by simp
qed

lemma best_full:
  assumes "\<exists>e. 1 \<le> e \<and> e \<le> length fw \<and> match_count uw (take e fw) = length uw"
  shows "1 \<le> best_match_pos uw fw \<and> best_match_pos uw fw \<le> length fw \<and>
         match_count uw (take (best_match_pos uw fw) fw) = length uw \<and>
         (\<forall>e. 1 \<le> e \<and> e < best_match_pos uw fw \<longrightarrow> match_count uw (take e fw) \<noteq> length uw)"
proof -
  from assms obtain e0 where e0: "1 \<le> e0" "e0 \<le> length fw" "full_at uw fw e0"
    by (auto simp: full_at_def)
  define k where "k = (LEAST e. 1 \<le> e \<and> e \<le> length fw \<and> full_at uw fw e)"
  have k: "1 \<le> k \<and> k \<le> length fw \<and> full_at uw fw k"
    unfolding k_def by (rule LeastI[of _ e0]) (use e0 in simp)
  have kmin: "\<not> full_at uw fw e" if "1 \<le> e" "e < k" for e
    using that not_less_Least[of e "\<lambda>e. 1 \<le> e \<and> e \<le> length fw \<and> full_at uw fw e"] k
    unfolding k_def by auto
  have "scan uw fw [1 ..< Suc (length fw)] 0 = k"
  proof (rule scan_full)
    show "[1 ..< Suc (length fw)] = [1 ..< k] @ k # [Suc k ..< Suc (length fw)]"
      using k by (intro upt_split3) auto
    show "full_at uw fw k" using k by simp
    show "\<forall>p\<in>set [1 ..< k]. \<not> full_at uw fw p" using kmin by auto
  qed
  then have "best_match_pos uw fw = k" by (simp add: best_match_pos_def)
  with k kmin show ?thesis by (auto simp: full_at_def)
qed

lemma best_partial:
  assumes "\<forall>e. 1 \<le> e \<and> e \<le> length fw \<longrightarrow> match_count uw (take e fw) \<noteq> length uw"
    and "\<exists>e. 1 \<le> e \<and> e \<le> length fw \<and> 0 < match_count uw (take e fw)"
  shows "1 \<le> best_match_pos uw fw \<and> best_match_pos uw fw \<le> length fw \<and>
         0 < match_count uw (take (best_match_pos uw fw) fw) \<and>
         (\<forall>e. best_match_pos uw fw < e \<and> e \<le> length fw \<longrightarrow> match_count uw (take e fw) = 0)"
proof -
  from assms(2) obtain e0 where e0: "1 \<le> e0" "e0 \<le> length fw" "partial_at uw fw e0"
    by (auto simp: partial_at_def)
  define k where "k = (GREATEST e. 1 \<le> e \<and> e \<le> length fw \<and> partial_at uw fw e)"
  have k: "1 \<le> k \<and> k \<le> length fw \<and> partial_at uw fw k"
    unfolding k_def
    by (rule GreatestI_nat[where k = e0 and b = "length fw"]) (use e0 in auto)
  have kmax: "\<not> partial_at uw fw e" if e: "k < e" "e \<le> length fw" for e
  proof
    assume "partial_at uw fw e"
    with e have "1 \<le> e \<and> e \<le> length fw \<and> partial_at uw fw e" by simp
    then have "e \<le> k" unfolding k_def
      by (rule Greatest_le_nat[where b = "length fw"]) auto
    with e show False by simp
  qed
  have "scan uw fw [1 ..< Suc (length fw)] 0 = k"
  proof (rule scan_no_full_last)
    show "[1 ..< Suc (length fw)] = [1 ..< k] @ k # [Suc k ..< Suc (length fw)]"
      using k by (intro upt_split3) auto
    show "\<forall>x\<in>set [1 ..< Suc (length fw)]. \<not> full_at uw fw x"
      using assms(1) by (auto simp: full_at_def)
    show "partial_at uw fw k" using k by simp
    show "\<forall>q\<in>set [Suc k ..< Suc (length fw)]. \<not> partial_at uw fw q" using kmax by auto
  qed
  then have "best_match_pos uw fw = k" by (simp add: best_match_pos_def)
  with k kmax show ?thesis by (auto simp: partial_at_def)
qed

lemma best_none:
  assumes "\<forall>e. 1 \<le> e \<and> e \<le> length fw \<longrightarrow>
          match_count uw (take e fw) \<noteq> length uw \<and> match_count uw (take e fw) = 0"
  shows "best_match_pos uw fw = 0"
proof -
  have "scan uw fw [1 ..< Suc (length fw)] 0 = 0"
    by (rule scan_no_full_none) (use assms in \<open>auto simp: full_at_def partial_at_def\<close>)
  then show ?thesis by (simp add: best_match_pos_def)
qed

text \<open>
  Claim C3, as stated, fails. For the text \<open>a b z b\<close> and the utterance \<open>q a b\<close> (not
  a substring) no prefix matches all three utterance words; the prefix of length 2
  matches two trailing words, the prefix of length 4 only one, and the loop returns 4:
  it keeps the last prefix length with a positive count, not the one with the largest.
\<close>

theorem word_alignment_not_best_partial:
  "find_str (lower ''a b z b'') (lower ''q a b'') = None \<and>
   split (lower ''q a b'') = [''q'', ''a'', ''b''] \<and>
   split (lower ''a b z b'') = [''a'', ''b'', ''z'', ''b''] \<and>
   find_spoken_portion ''a b z b'' ''q a b'' = ''a b z b'' \<and>
   best_match_pos [''q'', ''a'', ''b''] [''a'', ''b'', ''z'', ''b''] = 4 \<and>
   match_count [''q'', ''a'', ''b''] (take 4 [''a'', ''b'', ''z'', ''b'']) = 1 \<and>
   match_count [''q'', ''a'', ''b''] (take 2 [''a'', ''b'', ''z'', ''b'']) = 2"
  by code_simp

text \<open>
  Claim C3, amended. When the utterance \<open>U\<close> is not a substring of the text \<open>T\<close> up to
  case and has at least one word, the result is the first \<open>k\<close> words of \<open>T\<close> joined by
  single spaces, where \<open>k\<close> is the prefix length returned by the alignment loop on the
  lowered word lists. For all word lists \<open>uw\<close> and \<open>fw\<close>: if some prefix length between
  1 and \<open>length fw\<close> matches all utterance words, \<open>k\<close> is the smallest such length;
  if none does but some prefix length has a positive trailing match, \<open>k\<close> is the largest
  prefix length with a positive trailing match (the last one examined, whatever its
  count); if no prefix length matches anything, \<open>k\<close> is 0 and the result is empty.
\<close>

theorem word_alignment_prefix_length:
  "(U \<noteq> [] \<and> T \<noteq> [] \<and> \<not> sublist (lower U) (lower T) \<and> split U \<noteq> [] \<longrightarrow>
      find_spoken_portion T U =
        join '' '' (take (best_match_pos (split (lower U)) (split (lower T))) (split T)))
   \<and> ((\<exists>e. 1 \<le> e \<and> e \<le> length fw \<and> match_count uw (take e fw) = length uw) \<longrightarrow>
         1 \<le> best_match_pos uw fw \<and> best_match_pos uw fw \<le> length fw \<and>
         match_count uw (take (best_match_pos uw fw) fw) = length uw \<and>
         (\<forall>e. 1 \<le> e \<and> e < best_match_pos uw fw \<longrightarrow> match_count uw (take e fw) \<noteq> length uw))
   \<and> ((\<forall>e. 1 \<le> e \<and> e \<le> length fw \<longrightarrow> match_count uw (take e fw) \<noteq> length uw) \<and>
       (\<exists>e. 1 \<le> e \<and> e \<le> length fw \<and> 0 < match_count uw (take e fw)) \<longrightarrow>
         1 \<le> best_match_pos uw fw \<and> best_match_pos uw fw \<le> length fw \<and>
         0 < match_count uw (take (best_match_pos uw fw) fw) \<and>
         (\<forall>e. best_match_pos uw fw < e \<and> e \<le> length fw \<longrightarrow> match_count uw (take e fw) = 0))
   \<and> ((\<forall>e. 1 \<le> e \<and> e \<le> length fw \<longrightarrow>
          match_count uw (take e fw) \<noteq> length uw \<and> match_count uw (take e fw) = 0) \<longrightarrow>
         best_match_pos uw fw = 0)"
  using fallback_result[of U T] best_full[of fw uw] best_partial[of fw uw] best_none[of fw uw]
  by blast

theorem word_alignment_prefix_length_witness:
  "''check that for'' \<noteq> [] \<and> ''I can check  that for you'' \<noteq> [] \<and>
   \<not> sublist (lower ''check that for'') (lower ''I can check  that for you'') \<and>
   split ''check that for'' \<noteq> [] \<and>
   find_spoken_portion ''I can check  that for you'' ''check that for'' =
     join '' '' (take (best_match_pos (split (lower ''check that for''))
                        (split (lower ''I can check  that for you'')))
                   (split ''I can check  that for you'')) \<and>
   find_spoken_portion ''I can check  that for you'' ''check that for'' = ''I can check that for'' \<and>
   match_count [''check'', ''that'', ''for''] (take 5 [''i'', ''can'', ''check'', ''that'', ''for'', ''you''])
     = length [''check'', ''that'', ''for''] \<and>
   best_match_pos [''check'', ''that'', ''for''] [''i'', ''can'', ''check'', ''that'', ''for'', ''you''] = 5 \<and>
   0 < match_count [''q'', ''a'', ''b''] (take 2 [''a'', ''b'', ''z'', ''b'']) \<and>
   1 \<le> best_match_pos [''q'', ''a'', ''b''] [''a'', ''b'', ''z'', ''b''] \<and>
   best_match_pos [''q'', ''a'', ''b''] [''a'', ''b'', ''z'', ''b''] \<le> length [''a'', ''b'', ''z'', ''b''] \<and>
   0 < match_count [''q'', ''a'', ''b'']
         (take (best_match_pos [''q'', ''a'', ''b''] [''a'', ''b'', ''z'', ''b'']) [''a'', ''b'', ''z'', ''b''])"
proof -
  let ?U = "''check that for''" and ?T = "''I can check  that for you''"
  let ?uw = "[''check'', ''that'', ''for'']" and ?fw = "[''i'', ''can'', ''check'', ''that'', ''for'', ''you'']"
  let ?uw2 = "[''q'', ''a'', ''b'']" and ?fw2 = "[''a'', ''b'', ''z'', ''b'']"
  have "find_str (lower ?T) (lower ?U) = None" by code_simp
  then have ns: "\<not> sublist (lower ?U) (lower ?T)" by (rule find_str_None)
  have sp: "split ?U \<noteq> []" by code_simp
  have v: "find_spoken_portion ?T ?U = ''I can check that for''" by code_simp
  have f5: "match_count ?uw (take 5 ?fw) = length ?uw" by code_simp
  have b5: "best_match_pos ?uw ?fw = 5" by code_simp
  have nofull: "\<forall>e. 1 \<le> e \<and> e \<le> length ?fw2 \<longrightarrow> match_count ?uw2 (take e ?fw2) \<noteq> length ?uw2"
  proof (intro allI impI)
    fix e :: nat assume "1 \<le> e \<and> e \<le> length ?fw2"
    then have "e = 1 \<or> e = 2 \<or> e = 3 \<or> e = 4" by auto
    then show "match_count ?uw2 (take e ?fw2) \<noteq> length ?uw2"
      by (elim disjE) (simp_all add: match_count_def)
  qed
  have p2: "0 < match_count ?uw2 (take 2 ?fw2)" by code_simp
  have ex: "\<exists>e. 1 \<le> e \<and> e \<le> length ?fw2 \<and> 0 < match_count ?uw2 (take e ?fw2)"
    using p2 by (intro exI[of _ 2]) simp
  have ne: "?U \<noteq> [] \<and> ?T \<noteq> []" by simp
  note w = word_alignment_prefix_length[of ?U ?T ?fw2 ?uw2]
  from ne ns sp w have r: "find_spoken_portion ?T ?U =
     join '' '' (take (best_match_pos (split (lower ?U)) (split (lower ?T))) (split ?T))"
    by blast
  from nofull ex w
  have "1 \<le> best_match_pos ?uw2 ?fw2 \<and> best_match_pos ?uw2 ?fw2 \<le> length ?fw2 \<and>
        0 < match_count ?uw2 (take (best_match_pos ?uw2 ?fw2) ?fw2)"
    by blast
  with ns sp v r f5 b5 p2 show ?thesis by simp
qed

section \<open>Redaction of the history\<close>

lemma redact_loop_none:
  "\<forall>i\<in>set idxs. \<not> real_assistant (h ! i) \<Longrightarrow>
     redact_loop h u idxs = (Failed ''No assistant message found to redact'', h)"
  by (induction idxs) (auto simp: real_assistant_def)

lemma redact_loop_some:
  assumes "idxs = ps @ i # qs" "\<forall>p\<in>set ps. \<not> real_assistant (h ! p)" "real_assistant (h ! i)"
  shows "redact_loop h u idxs =
     (let s = find_spoken_portion (content (h ! i)) u;
          r = Redacted ''Conversation history redacted'' s (content (h ! i))
                 (if s \<noteq> [] then drop (length s) (content (h ! i)) else content (h ! i))
      in if strip s \<noteq> [] then (r, h[i := (h ! i)\<lparr>content := s\<rparr>])
         else (r, take i h @ drop (Suc i) h))"
  using assms
proof (induction ps arbitrary: idxs)
  case Nil
  then show ?case by (simp add: real_assistant_def Let_def)
next
  case (Cons p ps)
  then have "redact_loop h u idxs = redact_loop h u (ps @ i # qs)"
    by (auto simp: real_assistant_def)
  with Cons show ?case by simp
qed

lemma first_real_split:
  "\<exists>i\<in>set idxs. P i \<Longrightarrow> \<exists>ps i qs. idxs = ps @ i # qs \<and> (\<forall>p\<in>set ps. \<not> P p) \<and> P i"
  by (metis split_list_first_prop)

lemma redact_loop_cases:
  assumes "redact_loop h u idxs = (r, h')" "\<forall>i\<in>set idxs. i < length h"
  shows "(r = Failed ''No assistant message found to redact'' \<and> h' = h \<and>
            (\<forall>i\<in>set idxs. \<not> real_assistant (h ! i)))
       \<or> (\<exists>i\<in>set idxs. real_assistant (h ! i) \<and> success r \<and>
             (h' = h[i := (h ! i)\<lparr>content := find_spoken_portion (content (h ! i)) u\<rparr>]
                 \<and> strip (find_spoken_portion (content (h ! i)) u) \<noteq> []
              \<or> h' = take i h @ drop (Suc i) h
                 \<and> strip (find_spoken_portion (content (h ! i)) u) = []))"
proof (cases "\<exists>i\<in>set idxs. real_assistant (h ! i)")
  case False
  with assms(1) redact_loop_none[of idxs h u] show ?thesis by auto
next
  case True
  from first_real_split[OF True] obtain ps i qs where
    s: "idxs = ps @ i # qs" "\<forall>p\<in>set ps. \<not> real_assistant (h ! p)" "real_assistant (h ! i)"
    by blast
  have "i \<in> set idxs" using s(1) by simp
  with redact_loop_some[OF s, of u] assms(1) s(3) show ?thesis
    by (auto simp: Let_def split: if_splits intro!: bexI[of _ i])
qed

lemma redact_loop_rev_exists:
  assumes "\<exists>i<length h. real_assistant (h ! i)"
  shows "success (fst (redact_loop h u (rev [0 ..< length h])))"
proof -
  obtain r h' where l: "redact_loop h u (rev [0 ..< length h]) = (r, h')"
    by (cases "redact_loop h u (rev [0 ..< length h])")
  have "\<forall>i\<in>set (rev [0 ..< length h]). i < length h" by simp
  from redact_loop_cases[OF l this] assms l show ?thesis by auto
qed

lemma filter_one_remove:
  assumes "length (filter P h) = 1" "i < length h" "P (h ! i)"
  shows "filter P (take i h @ drop (Suc i) h) = []"
proof -
  have "h = take i h @ h ! i # drop (Suc i) h" using assms(2) by (rule id_take_nth_drop)
  then have "filter P h = filter P (take i h) @ h ! i # filter P (drop (Suc i) h)"
    using assms(3) by (metis filter.simps(2) filter_append)
  with assms(1) have "length (filter P (take i h)) + length (filter P (drop (Suc i) h)) = 0"
    by simp
  then show ?thesis by simp
qed

lemma filter_one_update:
  assumes "length (filter P h) = 1" "i < length h" "P (h ! i)" "P e"
  shows "length (filter P (h[i := e])) = 1"
proof -
  have "filter P (take i h @ drop (Suc i) h) = []" using assms(1-3) by (rule filter_one_remove)
  moreover have "h[i := e] = take i h @ e # drop (Suc i) h"
    using assms(2) by (rule upd_conv_take_nth_drop)
  ultimately show ?thesis using assms(4) by simp
qed

lemma example_first_call:
  "redact_conversation_history ''s'' ''thank you for calling'' [''s'' \<mapsto> example_history] =
     (Redacted ''Conversation history redacted'' ''Thank you for calling''
        ''Thank you for calling CoffeeMarket! Goodbye!'' '' CoffeeMarket! Goodbye!'',
      [''s'' \<mapsto> example_redacted])"
proof -
  have "redact_loop example_history ''thank you for calling'' (rev [0 ..< length example_history]) =
     (Redacted ''Conversation history redacted'' ''Thank you for calling''
        ''Thank you for calling CoffeeMarket! Goodbye!'' '' CoffeeMarket! Goodbye!'',
      example_redacted)" by code_simp
  moreover have "example_history \<noteq> []" by (simp add: example_history_def)
  ultimately show ?thesis by (simp add: redact_conversation_history_def)
qed

lemma example_second_call:
  "redact_conversation_history ''s'' ''thank you for calling'' [''s'' \<mapsto> example_redacted] =
     (Redacted ''Conversation history redacted'' ''Thank you for calling''
        ''Thank you for calling'' [], [''s'' \<mapsto> example_redacted])"
proof -
  have "redact_loop example_redacted ''thank you for calling'' (rev [0 ..< length example_redacted]) =
     (Redacted ''Conversation history redacted'' ''Thank you for calling''
        ''Thank you for calling'' [], example_redacted)" by code_simp
  moreover have "example_redacted \<noteq> []" by (simp add: example_redacted_def)
  ultimately show ?thesis by (simp add: redact_conversation_history_def)
qed

lemma example_unspoken_first_call:
  "redact_conversation_history ''s'' ''hello'' [''s'' \<mapsto> example_unspoken] =
     (Redacted ''Conversation history redacted'' [] ''Goodbye!'' ''Goodbye!'',
      [''s'' \<mapsto> [\<lparr>role = ''user'', content = ''bye'', entry_type = None\<rparr>]])"
proof -
  have "redact_loop example_unspoken ''hello'' (rev [0 ..< length example_unspoken]) =
     (Redacted ''Conversation history redacted'' [] ''Goodbye!'' ''Goodbye!'',
      [\<lparr>role = ''user'', content = ''bye'', entry_type = None\<rparr>])" by code_simp
  moreover have "example_unspoken \<noteq> []" by (simp add: example_unspoken_def)
  ultimately show ?thesis by (simp add: redact_conversation_history_def)
qed

lemma example_unspoken_second_call:
  "redact_conversation_history ''s'' ''hello''
       [''s'' \<mapsto> [\<lparr>role = ''user'', content = ''bye'', entry_type = None\<rparr>]] =
     (Failed ''No assistant message found to redact'',
      [''s'' \<mapsto> [\<lparr>role = ''user'', content = ''bye'', entry_type = None\<rparr>]])"
  by (simp add: redact_conversation_history_def)

text \<open>
  Claim C10. The redaction never adds an entry. The histories of the other sessions are
  untouched. For the session itself, either the call reports failure and every history
  is as before, or it reports success and the session's history is the old one with the
  content of one assistant entry replaced by the spoken portion, or the old one with one
  assistant entry removed; all other entries stay, in order.
\<close>

theorem redaction_never_adds_entries:
  assumes "redact_conversation_history sid u ch = (r, ch')"
  shows "(\<forall>s. s \<noteq> sid \<longrightarrow> ch' s = ch s) \<and>
   ((\<not> success r \<and> ch' = ch) \<or>
    (\<exists>h i. ch sid = Some h \<and> i < length h \<and> role (h ! i) = ''assistant'' \<and> success r \<and>
        (ch' sid = Some (h[i := (h ! i)\<lparr>content := find_spoken_portion (content (h ! i)) u\<rparr>]) \<or>
         ch' sid = Some (take i h @ drop (Suc i) h))))"
proof (cases "ch sid")
  case None
  with assms show ?thesis by (auto simp: redact_conversation_history_def)
next
  case (Some h)
  show ?thesis
  proof (cases "h = []")
    case True
    with Some assms show ?thesis by (auto simp: redact_conversation_history_def)
  next
    case False
    obtain r0 h' where l: "redact_loop h u (rev [0 ..< length h]) = (r0, h')"
      by (cases "redact_loop h u (rev [0 ..< length h])")
    with Some False assms have e: "r = r0" "ch' = ch(sid \<mapsto> h')"
      by (auto simp: redact_conversation_history_def)
    have "\<forall>i\<in>set (rev [0 ..< length h]). i < length h" by simp
    from redact_loop_cases[OF l this] show ?thesis
    proof
      assume "r0 = Failed ''No assistant message found to redact'' \<and> h' = h \<and>
            (\<forall>i\<in>set (rev [0 ..< length h]). \<not> real_assistant (h ! i))"
      with e Some have "\<not> success r" "ch' = ch" by auto
      then show ?thesis by simp
    next
      assume "\<exists>i\<in>set (rev [0 ..< length h]). real_assistant (h ! i) \<and> success r0 \<and>
             (h' = h[i := (h ! i)\<lparr>content := find_spoken_portion (content (h ! i)) u\<rparr>]
                 \<and> strip (find_spoken_portion (content (h ! i)) u) \<noteq> []
              \<or> h' = take i h @ drop (Suc i) h
                 \<and> strip (find_spoken_portion (content (h ! i)) u) = [])"
      then obtain i where i: "i < length h" "real_assistant (h ! i)" "success r0"
        "h' = h[i := (h ! i)\<lparr>content := find_spoken_portion (content (h ! i)) u\<rparr>]
           \<or> h' = take i h @ drop (Suc i) h" by auto
      with e Some show ?thesis
        by (auto simp: real_assistant_def intro!: exI[of _ h] exI[of _ i])
    qed
  qed
qed

theorem redaction_never_adds_entries_witness:
  "redact_conversation_history ''s'' ''thank you for calling'' [''s'' \<mapsto> example_history] =
     (Redacted ''Conversation history redacted'' ''Thank you for calling''
        ''Thank you for calling CoffeeMarket! Goodbye!'' '' CoffeeMarket! Goodbye!'',
      [''s'' \<mapsto> example_redacted]) \<and>
   [''s'' \<mapsto> example_redacted] ''t'' = [''s'' \<mapsto> example_history] ''t'' \<and>
   [''s'' \<mapsto> example_redacted] ''s'' =
     Some (example_history[1 := (example_history ! 1)\<lparr>content := ''Thank you for calling''\<rparr>])"
proof -
  have "example_redacted = example_history[1 := (example_history ! 1)\<lparr>content := ''Thank you for calling''\<rparr>]"
    by (simp add: example_redacted_def example_history_def)
  with redaction_never_adds_entries[OF example_first_call] example_first_call
  show ?thesis by simp
qed

text \<open>
  Claim C9, as stated, fails. On the history \<open>example_history\<close>, which has exactly one
  real assistant entry, the first call with the utterance \<open>thank you for calling\<close>
  replaces the entry's content by the spoken portion and keeps the entry; the second
  call with the same utterance finds it again and reports success, not
  \<open>No assistant message found to redact\<close>.
\<close>

theorem redact_twice_second_call_succeeds:
  "length (filter real_assistant example_history) = 1 \<and>
   fst (redact_conversation_history ''s'' ''thank you for calling''
          (snd (redact_conversation_history ''s'' ''thank you for calling''
                  [''s'' \<mapsto> example_history])))
     = Redacted ''Conversation history redacted'' ''Thank you for calling''
         ''Thank you for calling'' []"
proof -
  have "length (filter real_assistant example_history) = 1" by code_simp
  then show ?thesis by (simp add: example_first_call example_second_call)
qed

lemma filter_one_unique:
  assumes "length (filter P h) = 1" "i < length h" "P (h ! i)" "j < length h" "P (h ! j)"
  shows "j = i"
proof (rule ccontr)
  assume ne: "j \<noteq> i"
  have e: "filter P (take i h @ drop (Suc i) h) = []" using assms(1-3) by (rule filter_one_remove)
  have "h ! j \<in> set (take i h @ drop (Suc i) h)"
  proof (cases "j < i")
    case True
    with assms(2) have "h ! j = take i h ! j" "j < length (take i h)" by simp_all
    then have "h ! j \<in> set (take i h)" by (metis nth_mem)
    then show ?thesis by simp
  next
    case False
    with ne have g: "i < j" by simp
    then obtain k where k: "j = Suc i + k" by (metis less_iff_Suc_add add_Suc)
    with assms(4) have "drop (Suc i) h ! k = h ! j" "k < length (drop (Suc i) h)" by simp_all
    then have "h ! j \<in> set (drop (Suc i) h)" by (metis nth_mem)
    then show ?thesis by simp
  qed
  with e assms(5) show False by (auto simp: filter_empty_conv)
qed

text \<open>
  Claim C9, amended. On a history with exactly one real assistant entry, at index \<open>i\<close>,
  the first call succeeds. If the spoken portion it finds for the content of that entry
  is not blank, the entry stays, with the spoken portion as its content, and the second
  call with the same utterance succeeds again. If the spoken portion is blank, the entry
  is removed and the second call fails: with \<open>No assistant message found to redact\<close>
  when other entries remain, with \<open>No conversation history found\<close> when the entry was
  the only one of the history.
\<close>

theorem redact_twice:
  assumes "ch sid = Some h" "length (filter real_assistant h) = 1"
    and "i < length h" "real_assistant (h ! i)"
    and "redact_conversation_history sid u ch = (r1, ch1)"
    and "redact_conversation_history sid u ch1 = (r2, ch2)"
  shows "success r1 \<and>
     (strip (find_spoken_portion (content (h ! i)) u) \<noteq> [] \<longrightarrow>
        ch1 sid = Some (h[i := (h ! i)\<lparr>content := find_spoken_portion (content (h ! i)) u\<rparr>]) \<and>
        success r2) \<and>
     (strip (find_spoken_portion (content (h ! i)) u) = [] \<longrightarrow>
        ch1 sid = Some (take i h @ drop (Suc i) h) \<and>
        r2 = Failed (if length h = 1 then ''No conversation history found''
                     else ''No assistant message found to redact''))"
proof -
  let ?s = "find_spoken_portion (content (h ! i)) u"
  from assms(3) have ne: "h \<noteq> []" by auto
  have ex: "\<exists>i<length h. real_assistant (h ! i)" using assms(3,4) by blast
  obtain r0 h1 where l: "redact_loop h u (rev [0 ..< length h]) = (r0, h1)"
    by (cases "redact_loop h u (rev [0 ..< length h])")
  with assms(1,5) ne have e1: "r1 = r0" "ch1 = ch(sid \<mapsto> h1)"
    by (auto simp: redact_conversation_history_def)
  have b: "\<forall>i\<in>set (rev [0 ..< length h]). i < length h" by simp
  from redact_loop_rev_exists[OF ex, of u] l have s1: "success r1" using e1 by simp
  from redact_loop_cases[OF l b] s1 e1 obtain j where j: "j < length h" "real_assistant (h ! j)"
    "h1 = h[j := (h ! j)\<lparr>content := find_spoken_portion (content (h ! j)) u\<rparr>]
         \<and> strip (find_spoken_portion (content (h ! j)) u) \<noteq> []
       \<or> h1 = take j h @ drop (Suc j) h
         \<and> strip (find_spoken_portion (content (h ! j)) u) = []" by auto
  have "j = i" using assms(2,3,4) j(1,2) by (rule filter_one_unique)
  with j(3) have c: "h1 = h[i := (h ! i)\<lparr>content := ?s\<rparr>] \<and> strip ?s \<noteq> []
       \<or> h1 = take i h @ drop (Suc i) h \<and> strip ?s = []" by simp
  have upd: "ch1 sid = Some (h[i := (h ! i)\<lparr>content := ?s\<rparr>]) \<and> success r2"
    if n: "strip ?s \<noteq> []"
  proof -
    from c n have u: "h1 = h[i := (h ! i)\<lparr>content := ?s\<rparr>]" by auto
    have re: "real_assistant ((h ! i)\<lparr>content := ?s\<rparr>)"
      using assms(4) by (simp add: real_assistant_def)
    have len: "length h1 = length h" using u by simp
    have ex1: "\<exists>j<length h1. real_assistant (h1 ! j)"
      using u assms(3) re by (intro exI[of _ i]) simp
    from len ne have ne1: "h1 \<noteq> []" by auto
    obtain r' h2 where l2: "redact_loop h1 u (rev [0 ..< length h1]) = (r', h2)"
      by (cases "redact_loop h1 u (rev [0 ..< length h1])")
    with assms(6) e1 ne1 have "r2 = r'"
      by (auto simp: redact_conversation_history_def)
    with redact_loop_rev_exists[OF ex1, of u] l2 have "success r2" by simp
    with u e1 show ?thesis by simp
  qed
  have rem: "ch1 sid = Some (take i h @ drop (Suc i) h) \<and>
        r2 = Failed (if length h = 1 then ''No conversation history found''
                     else ''No assistant message found to redact'')"
    if n: "strip ?s = []"
  proof -
    from c n have p: "h1 = take i h @ drop (Suc i) h" by auto
    have none: "filter real_assistant h1 = []"
      unfolding p using assms(2,3,4) by (rule filter_one_remove)
    have len: "Suc (length h1) = length h" using p assms(3) by simp
    then have emp: "(h1 = []) = (length h = 1)" by auto
    have "\<forall>j\<in>set (rev [0 ..< length h1]). \<not> real_assistant (h1 ! j)"
      using none by (auto simp: filter_empty_conv)
    from redact_loop_none[OF this, of u]
    have "r2 = Failed (if h1 = [] then ''No conversation history found''
                        else ''No assistant message found to redact'')"
      using assms(6) e1 by (auto simp: redact_conversation_history_def)
    with emp p e1 show ?thesis by simp
  qed
  from s1 upd rem show ?thesis by blast
qed

theorem redact_twice_witness:
  "[''s'' \<mapsto> example_history] ''s'' = Some example_history \<and>
   length (filter real_assistant example_history) = 1 \<and>
   (1 :: nat) < length example_history \<and> real_assistant (example_history ! 1) \<and>
   strip (find_spoken_portion (content (example_history ! 1)) ''thank you for calling'') \<noteq> [] \<and>
   redact_conversation_history ''s'' ''thank you for calling'' [''s'' \<mapsto> example_history] =
     (Redacted ''Conversation history redacted'' ''Thank you for calling''
        ''Thank you for calling CoffeeMarket! Goodbye!'' '' CoffeeMarket! Goodbye!'',
      [''s'' \<mapsto> example_redacted]) \<and>
   [''s'' \<mapsto> example_redacted] ''s'' =
     Some (example_history[1 := (example_history ! 1)
        \<lparr>content := find_spoken_portion (content (example_history ! 1)) ''thank you for calling''\<rparr>]) \<and>
   success (Redacted ''Conversation history redacted'' ''Thank you for calling''
        ''Thank you for calling'' []) \<and>
   [''s'' \<mapsto> example_unspoken] ''s'' = Some example_unspoken \<and>
   length (filter real_assistant example_unspoken) = 1 \<and>
   (1 :: nat) < length example_unspoken \<and> real_assistant (example_unspoken ! 1) \<and>
   strip (find_spoken_portion (content (example_unspoken ! 1)) ''hello'') = [] \<and>
   [''s'' \<mapsto> [\<lparr>role = ''user'', content = ''bye'', entry_type = None\<rparr>]] ''s'' =
     Some (take 1 example_unspoken @ drop (Suc 1) example_unspoken) \<and>
   redact_conversation_history ''s'' ''hello''
       [''s'' \<mapsto> [\<lparr>role = ''user'', content = ''bye'', entry_type = None\<rparr>]] =
     (Failed ''No assistant message found to redact'',
      [''s'' \<mapsto> [\<lparr>role = ''user'', content = ''bye'', entry_type = None\<rparr>]])"
proof -
  have one: "length (filter real_assistant example_history) = 1" by code_simp
  have m: "[''s'' \<mapsto> example_history] ''s'' = Some example_history" by simp
  have i: "(1 :: nat) < length example_history" by (simp add: example_history_def)
  have ra: "real_assistant (example_history ! 1)" by code_simp
  have sp: "strip (find_spoken_portion (content (example_history ! 1)) ''thank you for calling'') \<noteq> []"
    by code_simp
  from redact_twice[OF m one i ra example_first_call example_second_call] sp
  have up: "[''s'' \<mapsto> example_redacted] ''s'' =
     Some (example_history[1 := (example_history ! 1)
        \<lparr>content := find_spoken_portion (content (example_history ! 1)) ''thank you for calling''\<rparr>]) \<and>
     success (Redacted ''Conversation history redacted'' ''Thank you for calling''
        ''Thank you for calling'' [])"
    by blast
  have one': "length (filter real_assistant example_unspoken) = 1" by code_simp
  have m': "[''s'' \<mapsto> example_unspoken] ''s'' = Some example_unspoken" by simp
  have i': "(1 :: nat) < length example_unspoken" by (simp add: example_unspoken_def)
  have ra': "real_assistant (example_unspoken ! 1)" by code_simp
  have sp': "strip (find_spoken_portion (content (example_unspoken ! 1)) ''hello'') = []"
    by code_simp
  from redact_twice[OF m' one' i' ra' example_unspoken_first_call example_unspoken_second_call] sp'
  have rm: "[''s'' \<mapsto> [\<lparr>role = ''user'', content = ''bye'', entry_type = None\<rparr>]] ''s'' =
     Some (take 1 example_unspoken @ drop (Suc 1) example_unspoken)"
    by blast
  from one m i ra sp up one' m' i' ra' sp' rm example_first_call example_unspoken_second_call
  show ?thesis by blast
qed

section \<open>Invariants of the streaming loop\<close>

lemma run_loop_invariant:
  assumes "P s"
    and "\<And>c s. P s \<Longrightarrow> P (s\<lparr>stream_handler := callback_step c (stream_handler s)\<rparr>)"
    and "\<And>s s'. P s \<Longrightarrow> loop_body s = Some s' \<Longrightarrow> P s'"
  shows "P (fst (run_loop acts s))"
  using assms(1)
proof (induction acts arbitrary: s)
  case Nil
  then show ?case by simp
next
  case (Cons a acts)
  show ?case
  proof (cases a)
    case (Callback c)
    with Cons assms(2) show ?thesis by simp
  next
    case Poll
    with Cons assms(3) show ?thesis by (cases "loop_body s") auto
  qed
qed

lemma drain_invariant:
  assumes "P s"
    and "\<And>s s'. P s \<Longrightarrow> loop_body s = Some s' \<Longrightarrow> P s'"
  shows "P (fst (drain s))"
  using assms(1)
proof (induction s rule: drain.induct)
  case (1 s)
  show ?case
  proof (cases "last_token_count s < length (tokens (stream_handler s))")
    case False
    with 1 show ?thesis by (simp add: drain.simps[of s])
  next
    case True
    show ?thesis
    proof (cases "loop_body s")
      case None
      with True 1 show ?thesis by (simp add: drain.simps[of s])
    next
      case (Some s')
      from assms(2)[OF "1.prems" Some] have "P s'" .
      from "1.IH"[OF True Some this] True Some show ?thesis by (simp add: drain.simps[of s])
    qed
  qed
qed

lemma streaming_loop_invariant:
  assumes "P s"
    and "\<And>c s. P s \<Longrightarrow> P (s\<lparr>stream_handler := callback_step c (stream_handler s)\<rparr>)"
    and "\<And>s s'. P s \<Longrightarrow> loop_body s = Some s' \<Longrightarrow> P s'"
  shows "P (fst (streaming_loop acts s))"
proof -
  obtain s1 r1 where r: "run_loop acts s = (s1, r1)" by (cases "run_loop acts s")
  have "P (fst (run_loop acts s))" using assms by (rule run_loop_invariant)
  with r have a: "P s1" by simp
  show ?thesis
  proof (cases r1)
    case True
    with a r show ?thesis by (simp add: streaming_loop_def)
  next
    case False
    have "P (fst (drain s1))" using a assms(3) by (rule drain_invariant)
    with False r show ?thesis by (simp add: streaming_loop_def)
  qed
qed

lemma loop_body_yield:
  assumes "loop_body s = Some s'"
  shows "\<exists>ib ts. yielded s' = yielded s @ ib @ ts \<and>
           (ib = [] \<and> interstitial_sent_this_response s' = interstitial_sent_this_response s
              \<and> phrase_index (stream_handler s') = phrase_index (stream_handler s)
            \<or> ib = [interstitial_event (interstitial_phrases ! phrase_index (stream_handler s))]
              \<and> \<not> interstitial_sent_this_response s \<and> interstitial_sent_this_response s'
              \<and> should_send_interstitial (stream_handler s)
              \<and> phrase_index (stream_handler s) < length interstitial_phrases
              \<and> phrase_index (stream_handler s') =
                  (phrase_index (stream_handler s) + 1) mod length interstitial_phrases) \<and>
           ts = map (token_event (stream_handler s'))
                  (drop (last_token_count s) (tokens (stream_handler s)))"
  using assms
  by (auto simp: loop_body_def Let_def get_next_interstitial_def
           split: if_splits option.splits)

lemma is_interstitial_token_event [simp]: "\<not> is_interstitial (token_event h t)"
  by (simp add: token_event_def)

lemma is_final_token_event [simp]: "\<not> is_final (token_event h t)"
  by (simp add: token_event_def)

lemma is_interstitial_interstitial_event [simp]: "is_interstitial (interstitial_event p)"
  by (simp add: interstitial_event_def)

lemma chunk_interstitial_event [simp]: "chunk (interstitial_event p) = p"
  by (simp add: interstitial_event_def)

lemma filter_token_events [simp]: "filter is_interstitial (map (token_event h) ts) = []"
  by (induction ts) simp_all

lemma callback_step_phrase_index [simp]:
  "phrase_index (callback_step c h) = phrase_index h"
  by (cases c)
     (simp_all add: on_llm_start_def on_llm_new_token_def on_tool_start_def on_tool_end_def
        on_llm_end_def timer_fire_def trigger_interstitial_def Let_def)

lemma at_most_one_body: "at_most_one s \<Longrightarrow> loop_body s = Some s' \<Longrightarrow> at_most_one s'"
proof -
  assume a: "at_most_one s" and b: "loop_body s = Some s'"
  from loop_body_yield[OF b] obtain ib ts where
    y: "yielded s' = yielded s @ ib @ ts"
    and c: "ib = [] \<and> interstitial_sent_this_response s' = interstitial_sent_this_response s
            \<or> ib = [interstitial_event (interstitial_phrases ! phrase_index (stream_handler s))]
              \<and> \<not> interstitial_sent_this_response s \<and> interstitial_sent_this_response s'"
    and t: "ts = map (token_event (stream_handler s'))
                  (drop (last_token_count s) (tokens (stream_handler s)))"
    by blast
  from c show ?thesis
  proof
    assume "ib = [] \<and> interstitial_sent_this_response s' = interstitial_sent_this_response s"
    with a y t show ?thesis by (auto simp: at_most_one_def split: if_splits)
  next
    assume "ib = [interstitial_event (interstitial_phrases ! phrase_index (stream_handler s))]
              \<and> \<not> interstitial_sent_this_response s \<and> interstitial_sent_this_response s'"
    with a y t show ?thesis by (auto simp: at_most_one_def split: if_splits)
  qed
qed

lemma at_most_one_callback:
  "at_most_one s \<Longrightarrow> at_most_one (s\<lparr>stream_handler := callback_step c (stream_handler s)\<rparr>)"
  by (auto simp: at_most_one_def split: if_splits)

lemma at_most_one_count: "at_most_one s \<Longrightarrow> length (filter is_interstitial (yielded s)) \<le> 1"
  by (auto simp: at_most_one_def split: if_splits)

lemma at_most_one_streaming_loop:
  "at_most_one (fst (streaming_loop acts (loop_start h)))"
proof (rule streaming_loop_invariant)
  show "at_most_one (loop_start h)" by (simp add: at_most_one_def loop_start_def)
qed (auto intro: at_most_one_callback at_most_one_body)

lemma loop_event_body:
  assumes "list_all loop_event (yielded s)" "loop_body s = Some s'"
  shows "list_all loop_event (yielded s')"
proof -
  from loop_body_yield[OF assms(2)] obtain ib ts where
    y: "yielded s' = yielded s @ ib @ ts"
    and c: "ib = [] \<or> ib = [interstitial_event (interstitial_phrases ! phrase_index (stream_handler s))]
              \<and> phrase_index (stream_handler s) < length interstitial_phrases"
    and t: "ts = map (token_event (stream_handler s'))
                  (drop (last_token_count s) (tokens (stream_handler s)))"
    by blast
  have "list_all loop_event ts" unfolding t by (simp add: list_all_iff loop_event_def)
  moreover have "list_all loop_event ib" using c by (auto simp: loop_event_def)
  ultimately show ?thesis using assms(1) y by simp
qed

lemma loop_event_streaming_loop:
  "list_all loop_event (yielded (fst (streaming_loop acts (loop_start h))))"
proof (rule streaming_loop_invariant[where P = "\<lambda>s. list_all loop_event (yielded s)"])
  show "list_all loop_event (yielded (loop_start h))" by (simp add: loop_start_def)
qed (auto intro: loop_event_body)

section \<open>The events, histories and sessions of a turn\<close>

lemma turn_events:
  "fst (generate_agent_response_stream sid msg e ch ss) =
     (if ss sid = None \<and> create_agent_raises e then [fallback_event]
      else yielded (fst (streaming_loop (schedule e) (loop_start (reset_handler (session_handler ss sid)))))
           @ [if snd (streaming_loop (schedule e) (loop_start (reset_handler (session_handler ss sid))))
                 \<or> agent_raises e
              then fallback_event
              else final_event (stream_handler (fst (streaming_loop (schedule e)
                      (loop_start (reset_handler (session_handler ss sid))))))])"
  by (simp add: generate_agent_response_stream_def Let_def split: prod.splits)

lemma turn_sessions:
  "snd (snd (generate_agent_response_stream sid msg e ch ss)) =
     (if ss sid = None \<and> create_agent_raises e then ss
      else ss(sid \<mapsto> stream_handler (fst (streaming_loop (schedule e)
                 (loop_start (reset_handler (session_handler ss sid)))))))"
  by (simp add: generate_agent_response_stream_def Let_def split: prod.splits)

lemma turn_interstitials:
  "filter is_interstitial (fst (generate_agent_response_stream sid msg e ch ss)) =
     (if ss sid = None \<and> create_agent_raises e then []
      else filter is_interstitial
             (yielded (fst (streaming_loop (schedule e)
                (loop_start (reset_handler (session_handler ss sid)))))))"
  by (simp add: turn_events fallback_event_def final_event_def)

lemma turn_last_not_interstitial:
  "\<not> is_interstitial (last (fst (generate_agent_response_stream sid msg e ch ss)))"
  by (simp add: turn_events fallback_event_def final_event_def)

lemma turn_events_shape:
  "\<exists>pre lastev. fst (generate_agent_response_stream sid msg e ch ss) = pre @ [lastev] \<and>
      list_all loop_event pre \<and> is_final lastev \<and> \<not> is_interstitial lastev"
proof (cases "ss sid = None \<and> create_agent_raises e")
  case True
  then have "fst (generate_agent_response_stream sid msg e ch ss) = [] @ [fallback_event]"
    by (simp add: turn_events)
  moreover have "is_final fallback_event \<and> \<not> is_interstitial fallback_event"
    by (simp add: fallback_event_def)
  ultimately show ?thesis by (intro exI[of _ "[]"] exI[of _ fallback_event]) simp
next
  case False
  let ?s = "fst (streaming_loop (schedule e) (loop_start (reset_handler (session_handler ss sid))))"
  let ?l = "if snd (streaming_loop (schedule e) (loop_start (reset_handler (session_handler ss sid))))
                 \<or> agent_raises e
            then fallback_event else final_event (stream_handler ?s)"
  from False have "\<not> (ss sid = None \<and> create_agent_raises e)" .
  then have "fst (generate_agent_response_stream sid msg e ch ss) = yielded ?s @ [?l]"
    by (simp only: turn_events if_False)
  moreover have "list_all loop_event (yielded ?s)" by (rule loop_event_streaming_loop)
  moreover have "is_final ?l \<and> \<not> is_interstitial ?l"
    by (simp add: fallback_event_def final_event_def)
  ultimately show ?thesis by blast
qed

lemma loop_body_order:
  assumes "loop_body s = Some s'"
  shows "\<exists>ib ts. yielded s' = yielded s @ ib @ ts \<and> length ib \<le> 1 \<and>
           filter is_interstitial ib = ib \<and> filter is_interstitial ts = []"
proof -
  from loop_body_yield[OF assms] obtain ib ts where
    y: "yielded s' = yielded s @ ib @ ts"
    and c: "ib = [] \<or> ib = [interstitial_event (interstitial_phrases ! phrase_index (stream_handler s))]"
    and t: "ts = map (token_event (stream_handler s'))
                  (drop (last_token_count s) (tokens (stream_handler s)))"
    by blast
  from c have "length ib \<le> 1 \<and> filter is_interstitial ib = ib" by auto
  moreover from t have "filter is_interstitial ts = []" by simp
  ultimately show ?thesis using y by blast
qed

section \<open>Interstitials within a turn\<close>

text \<open>
  Claim C1, as stated, fails. In the turn \<open>late_tool_env\<close> the token \<open>Hello\<close> arrives
  and is yielded, then a tool starts, its timer fires, and the next iteration yields
  the interstitial: the interstitial event comes after a non-interstitial chunk.
\<close>

theorem interstitial_after_real_chunk:
  "map is_interstitial
     (fst (generate_agent_response_stream ''s'' ''hi'' late_tool_env Map.empty Map.empty))
     = [False, True, False] \<and>
   map chunk
     (fst (generate_agent_response_stream ''s'' ''hi'' late_tool_env Map.empty Map.empty))
     = [''Hello'', ''Let me check that for you...'', []]"
  by code_simp

text \<open>
  Claim C1, amended. For every session and every turn, at most one interstitial event is
  yielded during the turn, and the last event of the turn is not an interstitial. Each
  iteration of the streaming loop yields its interstitial, if it has one, before the
  tokens it yields; tokens yielded by earlier iterations come before it.
\<close>

theorem at_most_one_interstitial_per_turn:
  "length (filter is_interstitial (fst (generate_agent_response_stream sid msg e ch ss))) \<le> 1 \<and>
   \<not> is_interstitial (last (fst (generate_agent_response_stream sid msg e ch ss))) \<and>
   (loop_body s = Some s' \<longrightarrow>
      (\<exists>ib ts. yielded s' = yielded s @ ib @ ts \<and> length ib \<le> 1 \<and>
           filter is_interstitial ib = ib \<and> filter is_interstitial ts = []))"
proof -
  have "length (filter is_interstitial (fst (generate_agent_response_stream sid msg e ch ss))) \<le> 1"
    using at_most_one_count[OF at_most_one_streaming_loop,
            of "schedule e" "reset_handler (session_handler ss sid)"]
    by (simp add: turn_interstitials)
  with turn_last_not_interstitial[of sid msg e ch ss] loop_body_order[of s s']
  show ?thesis by blast
qed

theorem at_most_one_interstitial_per_turn_witness:
  "length (filter is_interstitial
     (fst (generate_agent_response_stream ''s'' ''hi'' late_tool_env Map.empty Map.empty))) = 1 \<and>
   loop_body ready_state = Some (the (loop_body ready_state)) \<and>
   map is_interstitial (yielded (the (loop_body ready_state))) = [True, False] \<and>
   (\<exists>ib ts. yielded (the (loop_body ready_state)) = yielded ready_state @ ib @ ts \<and>
       length ib \<le> 1 \<and> filter is_interstitial ib = ib \<and> filter is_interstitial ts = [])"
proof -
  have a: "length (filter is_interstitial
     (fst (generate_agent_response_stream ''s'' ''hi'' late_tool_env Map.empty Map.empty))) = 1"
    by code_simp
  have "loop_body ready_state \<noteq> None" by code_simp
  then have b: "loop_body ready_state = Some (the (loop_body ready_state))" by simp
  have c: "map is_interstitial (yielded (the (loop_body ready_state))) = [True, False]"
    by code_simp
  from b at_most_one_interstitial_per_turn
           [of "''s''" "''hi''" late_tool_env Map.empty Map.empty ready_state
              "the (loop_body ready_state)"]
  have "\<exists>ib ts. yielded (the (loop_body ready_state)) = yielded ready_state @ ib @ ts \<and>
       length ib \<le> 1 \<and> filter is_interstitial ib = ib \<and> filter is_interstitial ts = []"
    by blast
  with a b c show ?thesis by blast
qed

section \<open>Failure of the generation\<close>

lemma turn_histories_failure:
  assumes "agent_raises e \<or> (ss sid = None \<and> create_agent_raises e)"
  shows "fst (snd (generate_agent_response_stream sid msg e ch ss)) =
     ch(sid \<mapsto> (case ch sid of None \<Rightarrow> [] | Some h \<Rightarrow> h) @
                 [\<lparr>role = ''user'', content = msg, entry_type = None\<rparr>])"
  using assms
  by (auto simp: generate_agent_response_stream_def Let_def split: prod.splits)

lemma fallback_not_loop_event: "\<not> loop_event fallback_event"
  by (simp add: loop_event_def fallback_event_def)

lemma turn_events_failure:
  assumes "agent_raises e \<or> (ss sid = None \<and> create_agent_raises e)"
  shows "\<exists>evs. fst (generate_agent_response_stream sid msg e ch ss) = evs @ [fallback_event] \<and>
           fallback_event \<notin> set evs \<and> list_all (\<lambda>ev. is_interstitial ev \<or> \<not> is_final ev) evs"
proof (cases "ss sid = None \<and> create_agent_raises e")
  case True
  then have "fst (generate_agent_response_stream sid msg e ch ss) = [] @ [fallback_event]"
    by (simp add: turn_events)
  then show ?thesis by (intro exI[of _ "[]"]) simp
next
  case False
  let ?evs = "yielded (fst (streaming_loop (schedule e)
                (loop_start (reset_handler (session_handler ss sid)))))"
  have le: "list_all loop_event ?evs" by (rule loop_event_streaming_loop)
  from False have n: "\<not> (ss sid = None \<and> create_agent_raises e)" .
  with assms have "agent_raises e" by blast
  with n have "fst (generate_agent_response_stream sid msg e ch ss) = ?evs @ [fallback_event]"
    by (simp only: turn_events if_False simp_thms if_True)
  moreover have "fallback_event \<notin> set ?evs"
    using le fallback_not_loop_event by (auto simp: list_all_iff)
  moreover have "list_all (\<lambda>ev. is_interstitial ev \<or> \<not> is_final ev) ?evs"
    using le by (auto simp: list_all_iff loop_event_def split: if_splits)
  ultimately show ?thesis by blast
qed

text \<open>
  Claim C5, as stated, fails. In the turn \<open>failing_env\<close> the agent thread raises; the
  fallback event is the last event, but the history of the session, empty before the
  turn, holds the user's message after it: the entry is appended before the \<open>try\<close> and
  stays.
\<close>

theorem generation_failure_keeps_user_entry:
  "fst (generate_agent_response_stream ''s'' ''hi'' failing_env [''s'' \<mapsto> []] Map.empty) =
     [token_event init_handler ''Let'', fallback_event] \<and>
   [''s'' \<mapsto> ([] :: entry list)] ''s'' = Some [] \<and>
   fst (snd (generate_agent_response_stream ''s'' ''hi'' failing_env [''s'' \<mapsto> []] Map.empty)) ''s''
     = Some [\<lparr>role = ''user'', content = ''hi'', entry_type = None\<rparr>]"
proof -
  have "fst (generate_agent_response_stream ''s'' ''hi'' failing_env [''s'' \<mapsto> []] Map.empty) =
     [token_event init_handler ''Let'', fallback_event]" by code_simp
  moreover have "agent_raises failing_env" by (simp add: failing_env_def)
  then have "fst (snd (generate_agent_response_stream ''s'' ''hi'' failing_env
                         [''s'' \<mapsto> []] Map.empty)) =
      [''s'' \<mapsto> [\<lparr>role = ''user'', content = ''hi'', entry_type = None\<rparr>]]"
    by (simp add: turn_histories_failure)
  ultimately show ?thesis by simp
qed

text \<open>
  Claim C5, amended. If the response generation raises during a turn (the agent thread
  ends with an exception, or building the agent of a new session fails), the events of
  the turn end with the apologetic fallback event, which occurs once and is the only
  final event that is not an interstitial; no assistant entry is added to the history of
  the session and no entry is changed or removed: the history is the one before the turn
  followed by the user's message of this turn. The histories of other sessions are as
  before.
\<close>

theorem generation_failure_fallback:
  assumes "agent_raises e \<or> (ss sid = None \<and> create_agent_raises e)"
  shows "(\<exists>evs. fst (generate_agent_response_stream sid msg e ch ss) = evs @ [fallback_event] \<and>
           fallback_event \<notin> set evs \<and> list_all (\<lambda>ev. is_interstitial ev \<or> \<not> is_final ev) evs) \<and>
         fst (snd (generate_agent_response_stream sid msg e ch ss)) =
           ch(sid \<mapsto> (case ch sid of None \<Rightarrow> [] | Some h \<Rightarrow> h) @
                 [\<lparr>role = ''user'', content = msg, entry_type = None\<rparr>])"
  using assms turn_events_failure[of e ss sid msg ch] turn_histories_failure[of e ss sid msg ch]
  by blast

theorem generation_failure_fallback_witness:
  "agent_raises failing_env \<and>
   fst (generate_agent_response_stream ''s'' ''hi'' failing_env [''s'' \<mapsto> []] Map.empty) =
     [token_event init_handler ''Let''] @ [fallback_event] \<and>
   fst (snd (generate_agent_response_stream ''s'' ''hi'' failing_env [''s'' \<mapsto> []] Map.empty)) =
     [''s'' \<mapsto> [\<lparr>role = ''user'', content = ''hi'', entry_type = None\<rparr>]]"
proof -
  have a: "agent_raises failing_env" by (simp add: failing_env_def)
  have "fst (generate_agent_response_stream ''s'' ''hi'' failing_env [''s'' \<mapsto> []] Map.empty) =
     [token_event init_handler ''Let'', fallback_event]" by code_simp
  moreover from a have "agent_raises failing_env \<or>
      ((Map.empty :: string \<rightharpoonup> handler) ''s'' = None \<and> create_agent_raises failing_env)"
    by simp
  with generation_failure_fallback[of failing_env Map.empty "''s''" "''hi''" "[''s'' \<mapsto> []]"]
  have "fst (snd (generate_agent_response_stream ''s'' ''hi'' failing_env [''s'' \<mapsto> []] Map.empty)) =
     [''s'' \<mapsto> [\<lparr>role = ''user'', content = ''hi'', entry_type = None\<rparr>]]"
    by simp
  ultimately show ?thesis using a by simp
qed

section \<open>Interstitials after a call-ending flag\<close>



text \<open>An iteration is its test followed by its body.\<close>

lemma loop_body_split: "loop_body s = poll_body (poll_test s) s"
  by (simp add: loop_body_def poll_body_def poll_test_def Let_def)

text \<open>
  The interleavings of whole iterations are among the interleavings of their steps, with
  the same result.
\<close>

lemma run_fine_expand:
  "fst (fst (run_fine (expand acts) (s, None))) = fst (run_loop acts s) \<and>
   snd (run_fine (expand acts) (s, None)) = snd (run_loop acts s) \<and>
   (\<not> snd (run_loop acts s) \<longrightarrow> snd (fst (run_fine (expand acts) (s, None))) = None)"
proof (induction acts arbitrary: s)
  case Nil
  then show ?case by simp
next
  case (Cons a acts)
  show ?case
  proof (cases a)
    case (Callback c)
    with Cons show ?thesis by simp
  next
    case Poll
    show ?thesis
    proof (cases "loop_body s")
      case None
      with Poll show ?thesis by (simp add: loop_body_split[symmetric])
    next
      case (Some s')
      with Poll Cons[of s'] show ?thesis by (simp add: loop_body_split[symmetric])
    qed
  qed
qed

lemma fine_loop_expand: "fine_loop (expand acts) (s, None) = streaming_loop acts s"
proof -
  obtain s1 d r where f: "run_fine (expand acts) (s, None) = ((s1, d), r)"
    by (metis prod.exhaust)
  obtain s2 r2 where l: "run_loop acts s = (s2, r2)" by (cases "run_loop acts s")
  from run_fine_expand[of acts s] f l have "s1 = s2" "r = r2" "\<not> r2 \<longrightarrow> d = None" by simp_all
  with f l show ?thesis by (auto simp: fine_loop_def streaming_loop_def)
qed















section \<open>The rotation of the filler phrases\<close>

lemma length_interstitial_phrases: "length interstitial_phrases = 6"
  by (simp add: interstitial_phrases_def)

lemma distinct_interstitial_phrases: "distinct interstitial_phrases"
  by (simp add: interstitial_phrases_def)

lemma length_rotation [simp]: "length (rotation p n) = n"
  by (simp add: rotation_def)

lemma rotation_Suc:
  "rotation p (Suc n) = rotation p n @ [interstitial_phrases ! ((p + n) mod length interstitial_phrases)]"
  by (simp add: rotation_def)

lemma rotation_add:
  "rotation p (n + m) = rotation p n @ rotation ((p + n) mod length interstitial_phrases) m"
proof (induction m)
  case 0
  then show ?case by (simp add: rotation_def)
next
  case (Suc m)
  have "((p + n) mod length interstitial_phrases + m) mod length interstitial_phrases
        = (p + (n + m)) mod length interstitial_phrases"
    by (simp add: mod_add_left_eq add.assoc)
  with Suc show ?case
    using rotation_Suc[of p "n + m"] rotation_Suc[of "(p + n) mod length interstitial_phrases" m]
    by simp
qed

lemma distinct_adj_rotation: "distinct_adj (rotation p n)"
proof -
  have "rotation p n ! i \<noteq> rotation p n ! Suc i" if "Suc i < n" for i
  proof -
    have a: "(p + i) mod 6 < 6" "(p + Suc i) mod 6 < 6" by simp_all
    have "(p + i) mod 6 \<noteq> (p + Suc i) mod 6" by (simp add: mod_Suc)
    with a distinct_interstitial_phrases
    have "interstitial_phrases ! ((p + i) mod 6) \<noteq> interstitial_phrases ! ((p + Suc i) mod 6)"
      by (simp add: nth_eq_iff_index_eq length_interstitial_phrases)
    with that show ?thesis by (simp add: rotation_def length_interstitial_phrases)
  qed
  then show ?thesis by (simp add: distinct_adj_conv_nth rotation_def)
qed

lemma interstitial_chunks_append [simp]:
  "interstitial_chunks (xs @ ys) = interstitial_chunks xs @ interstitial_chunks ys"
  by (simp add: interstitial_chunks_def)

lemma interstitial_chunks_tokens [simp]:
  "interstitial_chunks (map (token_event h) ts) = []"
  by (simp add: interstitial_chunks_def)

lemma cursor_ok_body:
  assumes "cursor_ok p s" "loop_body s = Some s'"
  shows "cursor_ok p s'"
proof -
  let ?n = "length (interstitial_chunks (yielded s))"
  from loop_body_yield[OF assms(2)] obtain ib ts where
    y: "yielded s' = yielded s @ ib @ ts"
    and c: "ib = [] \<and> phrase_index (stream_handler s') = phrase_index (stream_handler s)
            \<or> ib = [interstitial_event (interstitial_phrases ! phrase_index (stream_handler s))]
              \<and> phrase_index (stream_handler s') =
                  (phrase_index (stream_handler s) + 1) mod length interstitial_phrases"
    and t: "ts = map (token_event (stream_handler s'))
                  (drop (last_token_count s) (tokens (stream_handler s)))"
    by blast
  from c show ?thesis
  proof
    assume "ib = [] \<and> phrase_index (stream_handler s') = phrase_index (stream_handler s)"
    with assms(1) y t show ?thesis by (simp add: cursor_ok_def)
  next
    assume a: "ib = [interstitial_event (interstitial_phrases ! phrase_index (stream_handler s))]
              \<and> phrase_index (stream_handler s') =
                  (phrase_index (stream_handler s) + 1) mod length interstitial_phrases"
    from assms(1) have pi: "phrase_index (stream_handler s) = (p + ?n) mod length interstitial_phrases"
      and ch: "interstitial_chunks (yielded s) = rotation p ?n"
      by (simp_all add: cursor_ok_def)
    have ch': "interstitial_chunks (yielded s') =
        interstitial_chunks (yielded s) @ [interstitial_phrases ! ((p + ?n) mod length interstitial_phrases)]"
      using a y t pi by (simp add: interstitial_chunks_def)
    then have len: "length (interstitial_chunks (yielded s')) = Suc ?n" by simp
    have "interstitial_chunks (yielded s') = rotation p (Suc ?n)"
      using ch' ch rotation_Suc[of p ?n] by simp
    moreover have "phrase_index (stream_handler s') = (p + Suc ?n) mod length interstitial_phrases"
      using a pi by (simp add: mod_Suc_eq)
    ultimately show ?thesis using len by (simp add: cursor_ok_def)
  qed
qed

lemma cursor_ok_callback:
  "cursor_ok p s \<Longrightarrow> cursor_ok p (s\<lparr>stream_handler := callback_step c (stream_handler s)\<rparr>)"
  by (simp add: cursor_ok_def)

lemma cursor_ok_streaming_loop:
  assumes "phrase_index h < length interstitial_phrases"
  shows "cursor_ok (phrase_index h) (fst (streaming_loop acts (loop_start (reset_handler h))))"
proof (rule streaming_loop_invariant[where P = "cursor_ok (phrase_index h)"])
  show "cursor_ok (phrase_index h) (loop_start (reset_handler h))"
    using assms
    by (simp add: cursor_ok_def loop_start_def reset_handler_def interstitial_chunks_def rotation_def)
qed (auto intro: cursor_ok_callback cursor_ok_body)

lemma turn_chunks:
  "interstitial_chunks (fst (generate_agent_response_stream sid msg e ch ss)) =
     (if ss sid = None \<and> create_agent_raises e then []
      else interstitial_chunks (yielded (fst (streaming_loop (schedule e)
                 (loop_start (reset_handler (session_handler ss sid)))))))"
  by (simp add: interstitial_chunks_def turn_interstitials)

lemma turn_cursor:
  assumes "phrase_index (session_handler ss sid) < length interstitial_phrases"
  shows "interstitial_chunks (fst (generate_agent_response_stream sid msg e ch ss)) =
           rotation (phrase_index (session_handler ss sid))
             (length (interstitial_chunks (fst (generate_agent_response_stream sid msg e ch ss)))) \<and>
         phrase_index (session_handler (snd (snd (generate_agent_response_stream sid msg e ch ss))) sid) =
           (phrase_index (session_handler ss sid) +
              length (interstitial_chunks (fst (generate_agent_response_stream sid msg e ch ss))))
           mod length interstitial_phrases"
proof (cases "ss sid = None \<and> create_agent_raises e")
  case True
  with assms show ?thesis by (simp add: turn_chunks turn_sessions rotation_def)
next
  case False
  from cursor_ok_streaming_loop[OF assms, of "schedule e"] False
  show ?thesis
    by (simp only: turn_chunks turn_sessions if_False cursor_ok_def session_handler_def
          fun_upd_same option.case simp_thms)
qed

lemma session_cursor:
  assumes "phrase_index (session_handler ss sid) < length interstitial_phrases"
  shows "interstitial_chunks (fst (run_turns sid turns ch ss)) =
           rotation (phrase_index (session_handler ss sid))
             (length (interstitial_chunks (fst (run_turns sid turns ch ss)))) \<and>
         phrase_index (session_handler (snd (snd (run_turns sid turns ch ss))) sid) =
           (phrase_index (session_handler ss sid) +
              length (interstitial_chunks (fst (run_turns sid turns ch ss))))
           mod length interstitial_phrases"
  using assms
proof (induction turns arbitrary: ch ss)
  case Nil
  then show ?case by (simp add: interstitial_chunks_def rotation_def)
next
  case (Cons t turns)
  obtain msg e where t: "t = (msg, e)" by (cases t)
  obtain ev ch1 ss1 where g: "generate_agent_response_stream sid msg e ch ss = (ev, ch1, ss1)"
    by (cases "generate_agent_response_stream sid msg e ch ss")
  obtain ev' ch2 ss2 where r: "run_turns sid turns ch1 ss1 = (ev', ch2, ss2)"
    by (cases "run_turns sid turns ch1 ss1")
  let ?p = "phrase_index (session_handler ss sid)"
  let ?L = "length interstitial_phrases"
  from turn_cursor[OF Cons.prems, of msg e ch] g
  have a: "interstitial_chunks ev = rotation ?p (length (interstitial_chunks ev))"
    and b: "phrase_index (session_handler ss1 sid) = (?p + length (interstitial_chunks ev)) mod ?L"
    by simp_all
  have "phrase_index (session_handler ss1 sid) < ?L"
    unfolding b by (simp add: length_interstitial_phrases)
  from Cons.IH[OF this, of ch1] r
  have c: "interstitial_chunks ev' =
        rotation (phrase_index (session_handler ss1 sid)) (length (interstitial_chunks ev'))"
    and d: "phrase_index (session_handler ss2 sid) =
        (phrase_index (session_handler ss1 sid) + length (interstitial_chunks ev')) mod ?L"
    by simp_all
  have e1: "interstitial_chunks (ev @ ev') =
      rotation ?p (length (interstitial_chunks ev) + length (interstitial_chunks ev'))"
    using a c b rotation_add[of ?p "length (interstitial_chunks ev)" "length (interstitial_chunks ev')"]
    by simp
  have e2: "phrase_index (session_handler ss2 sid) =
      (?p + (length (interstitial_chunks ev) + length (interstitial_chunks ev'))) mod ?L"
    unfolding d b by (simp add: mod_add_left_eq add.assoc)
  have len: "length (interstitial_chunks (ev @ ev')) =
      length (interstitial_chunks ev) + length (interstitial_chunks ev')" by simp
  have f: "fst (run_turns sid (t # turns) ch ss) = ev @ ev'"
    "snd (snd (run_turns sid (t # turns) ch ss)) = ss2"
    using t g r by simp_all
  show ?case unfolding f len using e1 e2 by simp
qed

text \<open>
  The rotation. A selection with the cursor within the list returns the phrase under the
  cursor and moves the cursor on by one, back to 0 after the last phrase; the cursor
  stays within the list, so the selection never raises. The reset at the start of a turn
  leaves the cursor as it is. Over any sequence of turns of a session whose cursor is
  within the list (a new session starts at 0), the cursor after the turns is the cursor
  before plus the number of interstitials yielded, modulo the length of the list, the
  interstitials yielded are the phrases in the order of the list from the cursor on, and
  no two consecutive interstitials of the session carry the same phrase.
\<close>

lemma get_next_interstitial_in_range:
  assumes "phrase_index h < length interstitial_phrases"
  shows "get_next_interstitial h =
           Some (interstitial_phrases ! phrase_index h,
                 h\<lparr>phrase_index := (phrase_index h + 1) mod length interstitial_phrases\<rparr>)"
    and "(phrase_index h + 1) mod length interstitial_phrases < length interstitial_phrases"
    and "interstitial_phrases ! ((phrase_index h + 1) mod length interstitial_phrases) \<noteq>
           interstitial_phrases ! phrase_index h"
proof -
  show "get_next_interstitial h =
           Some (interstitial_phrases ! phrase_index h,
                 h\<lparr>phrase_index := (phrase_index h + 1) mod length interstitial_phrases\<rparr>)"
    using assms by (simp add: get_next_interstitial_def)
  show lt: "(phrase_index h + 1) mod length interstitial_phrases < length interstitial_phrases"
    by (simp add: length_interstitial_phrases)
  have "(phrase_index h + 1) mod length interstitial_phrases \<noteq> phrase_index h"
    using assms by (simp add: length_interstitial_phrases mod_Suc)
  with assms lt distinct_interstitial_phrases
  show "interstitial_phrases ! ((phrase_index h + 1) mod length interstitial_phrases) \<noteq>
           interstitial_phrases ! phrase_index h"
    by (simp add: nth_eq_iff_index_eq)
qed

lemma get_next_interstitial_wraps:
  "get_next_interstitial (init_handler\<lparr>phrase_index := 5\<rparr>) =
     Some (''Give me just a moment...'', init_handler\<lparr>phrase_index := 0\<rparr>)"
  by (simp add: get_next_interstitial_def interstitial_phrases_def)

lemma reset_handler_cursor: "phrase_index (reset_handler h) = phrase_index h"
  by (simp add: reset_handler_def)

lemma session_no_repeat:
  assumes "phrase_index (session_handler ss sid) < length interstitial_phrases"
  shows "distinct_adj (interstitial_chunks (fst (run_turns sid turns ch ss)))"
proof -
  from session_cursor[OF assms, of turns ch]
  have b: "interstitial_chunks (fst (run_turns sid turns ch ss)) =
           rotation (phrase_index (session_handler ss sid))
             (length (interstitial_chunks (fst (run_turns sid turns ch ss))))" by simp
  show ?thesis by (subst b) (rule distinct_adj_rotation)
qed

lemma two_turns_rotation:
  "interstitial_chunks
     (fst (run_turns ''s'' [(''a'', tool_env), (''b'', tool_env)] Map.empty Map.empty))
     = [''Let me check that for you...'', ''One moment please...''] \<and>
   phrase_index (session_handler
     (snd (snd (run_turns ''s'' [(''a'', tool_env), (''b'', tool_env)] Map.empty Map.empty))) ''s'')
     = 2"
  by code_simp


section \<open>The length of the chunks sent\<close>

lemma strip_Nil [simp]: "strip [] = []"
  by (simp add: strip_def)

lemma relay_step_sent:
  assumes "\<not> is_interstitial ev"
  shows "sent (relay_step st ev) = sent st \<or>
         sent (relay_step st ev) = sent st @
           [Text (if 200 < length (token_buffer st @ chunk ev)
                  then take 197 (token_buffer st @ chunk ev) @ ''...''
                  else token_buffer st @ chunk ev) False]"
  using assms by (simp add: relay_step_def Let_def)

lemma truncated_length:
  "length (if 200 < length b then take 197 b @ ''...'' else b) \<le> 200"
  by simp

lemma relay_step_sent_ok:
  assumes "sent_ok st" "is_interstitial ev \<longrightarrow> length (chunk ev) \<le> 200"
  shows "sent_ok (relay_step st ev)"
proof (cases "is_interstitial ev")
  case True
  with assms show ?thesis by (simp add: relay_step_def sent_ok_def)
next
  case False
  from relay_step_sent[OF False, of st] truncated_length[of "token_buffer st @ chunk ev"]
  obtain c where "sent (relay_step st ev) = sent st \<or>
       sent (relay_step st ev) = sent st @ [Text c False] \<and> length c \<le> 200"
    by blast
  with assms(1) show ?thesis by (auto simp: sent_ok_def)
qed

lemma relay_step_final:
  assumes "\<not> is_interstitial ev" "is_final ev"
  shows "strip (token_buffer (relay_step st ev)) = []"
  using assms by (simp add: relay_step_def Let_def)

lemma foldl_relay_sent_ok:
  assumes "sent_ok st" "\<forall>ev\<in>set evs. is_interstitial ev \<longrightarrow> length (chunk ev) \<le> 200"
  shows "sent_ok (foldl relay_step st evs)"
  using assms
proof (induction evs arbitrary: st)
  case Nil
  then show ?case by simp
next
  case (Cons ev evs)
  from Cons.prems have "sent_ok (relay_step st ev)" by (intro relay_step_sent_ok) auto
  with Cons show ?case by simp
qed

lemma phrases_short: "p \<in> set interstitial_phrases \<Longrightarrow> length p \<le> 200"
  by (auto simp: interstitial_phrases_def)

lemma loop_event_short: "loop_event ev \<Longrightarrow> is_interstitial ev \<Longrightarrow> length (chunk ev) \<le> 200"
  by (auto simp: loop_event_def intro: phrases_short)

lemma relay_flush_finish_sent_ok:
  assumes "sent_ok st" "strip (token_buffer st) = []"
  shows "sent_ok (relay_finish (relay_flush st))"
  using assms by (auto simp: sent_ok_def relay_flush_def relay_finish_def Let_def)

lemma init_relay_sent_ok: "sent_ok init_relay"
  by (simp add: sent_ok_def init_relay_def)

lemma turn_relay:
  "sent_ok (foldl relay_step init_relay (fst (generate_agent_response_stream sid msg e ch ss))) \<and>
   strip (token_buffer
     (foldl relay_step init_relay (fst (generate_agent_response_stream sid msg e ch ss)))) = []"
proof -
  from turn_events_shape[of sid msg e ch ss] obtain pre lastev where
    ev: "fst (generate_agent_response_stream sid msg e ch ss) = pre @ [lastev]"
    and pre: "list_all loop_event pre" and l: "is_final lastev" "\<not> is_interstitial lastev"
    by blast
  have "\<forall>ev\<in>set pre. is_interstitial ev \<longrightarrow> length (chunk ev) \<le> 200"
    using pre loop_event_short by (auto simp: list_all_iff)
  with init_relay_sent_ok have a: "sent_ok (foldl relay_step init_relay pre)"
    by (rule foldl_relay_sent_ok)
  have b: "sent_ok (relay_step (foldl relay_step init_relay pre) lastev)"
    using a l(2) by (intro relay_step_sent_ok) auto
  have c: "strip (token_buffer (relay_step (foldl relay_step init_relay pre) lastev)) = []"
    using l by (intro relay_step_final) auto
  from b c show ?thesis by (simp add: ev)
qed

lemma turn_sent_ok:
  "sent_ok (llm_call_response_streaming (fst (generate_agent_response_stream sid msg e ch ss)))"
  using turn_relay[of sid msg e ch ss] relay_flush_finish_sent_ok
  by (simp add: llm_call_response_streaming_def)

text \<open>
  Claim C2. Every message sent to the outbound channel during a turn carries at most 200
  characters. In the loop, a buffer that is sent is sent whole when it has at most 200
  characters and as its first 197 characters followed by \<open>...\<close> otherwise. When the
  events of the turn are exhausted the buffer is blank, because the generator always
  ends with a final event that is not an interstitial and that event sends what is
  pending: the flush after the loop has nothing left to send.
\<close>

theorem outbound_chunks_at_most_200:
  "(\<forall>m \<in> set (sent (llm_call_response_streaming
                     (fst (generate_agent_response_stream sid msg e ch ss)))).
      length (token m) \<le> 200) \<and>
   strip (token_buffer
     (foldl relay_step init_relay (fst (generate_agent_response_stream sid msg e ch ss)))) = [] \<and>
   (\<not> is_interstitial ev \<longrightarrow>
      sent (relay_step st ev) = sent st \<or>
      sent (relay_step st ev) = sent st @
        [Text (if 200 < length (token_buffer st @ chunk ev)
               then take 197 (token_buffer st @ chunk ev) @ ''...''
               else token_buffer st @ chunk ev) False])"
  using turn_sent_ok[of sid msg e ch ss] turn_relay[of sid msg e ch ss] relay_step_sent[of ev st]
  by (simp add: sent_ok_def)

theorem outbound_chunks_at_most_200_witness:
  "sent (llm_call_response_streaming
           (fst (generate_agent_response_stream ''s'' ''hi'' long_token_env Map.empty Map.empty)))
     = [Text (replicate 197 CHR ''a'' @ ''...'') False, Text [] True] \<and>
   length (token (Text (replicate 197 CHR ''a'' @ ''...'') False)) \<le> 200 \<and>
   strip (token_buffer (foldl relay_step init_relay
     (fst (generate_agent_response_stream ''s'' ''hi'' long_token_env Map.empty Map.empty)))) = []"
proof -
  have v: "sent (llm_call_response_streaming
           (fst (generate_agent_response_stream ''s'' ''hi'' long_token_env Map.empty Map.empty)))
     = [Text (replicate 197 CHR ''a'' @ ''...'') False, Text [] True]" by code_simp
  from outbound_chunks_at_most_200[of "''s''" "''hi''" long_token_env Map.empty Map.empty] v
  show ?thesis by simp
qed

section \<open>Detection of the call-end and hand-off intent\<close>

text \<open>
  Claim C4 says that the call-end flag and the hand-off flag are each set whether the
  intent arrives through a tool invocation or only as a sentinel marker in the text of
  the reply. The code does this for the hand-off and not for the call end. In the turn
  \<open>call_end_marker_env\<close> the reply is \<open>CALL_END: Goodbye!\<close> and the \<open>end_call\<close> tool is
  not invoked: no event carries the call-end flag, the relay's flag stays unset, no
  hang-up message is sent, and the marker is sent to the caller and stored in the
  history unstripped. In the turn \<open>handoff_marker_env\<close>, with the other marker and no
  tool, the relay sets its hand-off flag from the text and sends the hand-off message.
\<close>

theorem call_end_marker_alone_not_detected:
  "map should_end_call
     (fst (generate_agent_response_stream ''s'' ''bye'' call_end_marker_env Map.empty Map.empty))
     = [False, False] \<and>
   relay_should_end_call (llm_call_response_streaming
     (fst (generate_agent_response_stream ''s'' ''bye'' call_end_marker_env Map.empty Map.empty)))
     = False \<and>
   sent (llm_call_response_streaming
     (fst (generate_agent_response_stream ''s'' ''bye'' call_end_marker_env Map.empty Map.empty)))
     = [Text ''CALL_END: Goodbye!'' False, Text [] True] \<and>
   fst (snd (generate_agent_response_stream ''s'' ''bye'' call_end_marker_env Map.empty Map.empty)) ''s''
     = Some [\<lparr>role = ''user'', content = ''bye'', entry_type = None\<rparr>,
             \<lparr>role = ''assistant'', content = ''CALL_END: Goodbye!'', entry_type = None\<rparr>] \<and>
   map should_handoff
     (fst (generate_agent_response_stream ''s'' ''agent'' handoff_marker_env Map.empty Map.empty))
     = [False, False] \<and>
   relay_should_handoff (llm_call_response_streaming
     (fst (generate_agent_response_stream ''s'' ''agent'' handoff_marker_env Map.empty Map.empty)))
     = True \<and>
   sent (llm_call_response_streaming
     (fst (generate_agent_response_stream ''s'' ''agent'' handoff_marker_env Map.empty Map.empty)))
     = [Text ''HANDOFF_HUMAN: Please hold.'' False, Text [] True, Handoff]"
  by code_simp

end
